theory Spec2Isabelle
  imports Main "HOL-Library.Word"
begin

section \<open>Machine integers and failures\<close>

text \<open>
  \<^verbatim>\<open>aligner_seed.h\<close> uses C++ \<^verbatim>\<open>int\<close> (32 bits, two's complement), \<^verbatim>\<open>uint32_t\<close>,
  \<^verbatim>\<open>uint64_t\<close>, \<^verbatim>\<open>size_t\<close> and \<^verbatim>\<open>float\<close>.
  \<^item> An \<^verbatim>\<open>int\<close> is a \<open>32 word\<close> read through \<open>sint\<close>; its comparisons are the signed ones
    (\<open><s\<close>, \<open>\<le>s\<close>). Signed overflow is undefined in C++; the model wraps, and the theorems
    that speak about a result of \<open>-\<close> also give its \<open>sint\<close>, which shows that no wrap took
    place there.
  \<^item> A \<^verbatim>\<open>uint32_t\<close> is a \<open>32 word\<close>; a \<^verbatim>\<open>uint64_t\<close> and a \<^verbatim>\<open>size_t\<close> are \<open>64 word\<close>s;
    they are read through \<open>unat\<close>, and \<open>+\<close> on them wraps. The conversion of a
    \<^verbatim>\<open>uint32_t\<close> to \<^verbatim>\<open>size_t\<close> is \<open>ucast\<close>.
  \<^item> A \<^verbatim>\<open>float\<close> is kept as its 32-bit pattern (IEEE 754 binary32); the section on
    single precision gives the arithmetic.
  \<^item> The \<^verbatim>\<open>assert\<close> macros abort the program in a checked build. A method is modelled with
    the result type \<open>error + 'a\<close>: \<open>Inl AssertionFailed\<close> is the abort, \<open>Inl (Thrown n)\<close>
    is the C++ statement \<^verbatim>\<open>throw n\<close>, \<open>Inl NoReturn\<close> stands for a call that never
    returns, and \<open>Inl UndefinedBehaviour\<close> for a conversion from \<^verbatim>\<open>float\<close> to \<^verbatim>\<open>int\<close> whose
    value no \<^verbatim>\<open>int\<close> holds, which C++ leaves undefined.
\<close>

type_synonym cint = "32 word"
type_synonym cfloat = "32 word"
type_synonym uint32 = "32 word"
type_synonym uint64 = "64 word"
type_synonym size_t = "64 word"

datatype error = AssertionFailed | Thrown int | NoReturn | UndefinedBehaviour

section \<open>Single precision\<close>

text \<open>
  The value of a \<^verbatim>\<open>float\<close>: not a number, an infinity (\<open>FInf True\<close> is the negative one), or
  the number \<open>m * 2 ^ k\<close>, written \<open>FNum m k\<close>. The sign of a zero is dropped: no result
  used here depends on it. \<open>float_of_bits\<close> reads a bit pattern: sign, 8 bits of
  exponent, 23 bits of fraction.
\<close>

datatype fval = FNaN | FInf bool | FNum int int

definition float_of_bits :: "cfloat \<Rightarrow> fval" where
  "float_of_bits w =
     (let u = unat w; neg = (2 ^ 31 \<le> u); e = (u div 2 ^ 23) mod 256; f = u mod 2 ^ 23
      in if e = 255 then (if f = 0 then FInf neg else FNaN)
         else if e = 0 then FNum ((if neg then - 1 else 1) * int f) (- 149)
         else FNum ((if neg then - 1 else 1) * int (2 ^ 23 + f)) (int e - 150))"

text \<open>
  Rounding to single precision, to the nearest value and to the even one on a tie (the
  default rounding mode). \<open>bit_length a\<close> is the number of binary digits of \<open>a\<close>;
  \<open>round_shift a d\<close> is \<open>a / 2 ^ d\<close> rounded to an integer. \<open>round32 m k\<close> rounds the
  exact number \<open>m * 2 ^ k\<close>: the result keeps 24 digits, or fewer below the smallest
  normal number (its exponent is never below \<open>- 149\<close>), and a result of \<open>2 ^ 128\<close> or
  more is an infinity.
\<close>

fun bit_length :: "nat \<Rightarrow> nat" where
  "bit_length n = (if n = 0 then 0 else Suc (bit_length (n div 2)))"

declare bit_length.simps [simp del]

definition round_shift :: "nat \<Rightarrow> nat \<Rightarrow> nat" where
  "round_shift a d =
     (let h = a div 2 ^ d; r = a mod 2 ^ d
      in if 2 ^ d < 2 * r \<or> (2 * r = 2 ^ d \<and> odd h) then h + 1 else h)"

definition round32 :: "int \<Rightarrow> int \<Rightarrow> fval" where
  "round32 m k =
     (if m = 0 then FNum 0 0
      else let a = nat \<bar>m\<bar>;
               q = max (int (bit_length a) + k - 24) (- 149);
               M = (if q \<le> k then a * 2 ^ nat (k - q) else round_shift a (nat (q - k)))
           in if 2 ^ 277 \<le> M * 2 ^ nat (q + 149) then FInf (m < 0)
              else FNum (sgn m * int M) q)"

text \<open>
  The operations of line 220, each the exact result rounded once (evaluation in single
  precision, no fused multiply-add): \<^verbatim>\<open>+\<close>, \<^verbatim>\<open>*\<close>, the conversion \<^verbatim>\<open>(float)\<close> of a
  \<^verbatim>\<open>size_t\<close>, and the conversion \<^verbatim>\<open>(int)\<close>, which drops the fraction (it truncates
  toward zero) and is undefined when the result is not an \<^verbatim>\<open>int\<close>.
\<close>

fun fadd :: "fval \<Rightarrow> fval \<Rightarrow> fval" where
  "fadd (FNum m1 k1) (FNum m2 k2) =
     (let k = min k1 k2 in round32 (m1 * 2 ^ nat (k1 - k) + m2 * 2 ^ nat (k2 - k)) k)"
| "fadd (FInf s) (FInf t) = (if s = t then FInf s else FNaN)"
| "fadd (FInf s) (FNum m k) = FInf s"
| "fadd (FNum m k) (FInf t) = FInf t"
| "fadd FNaN y = FNaN"
| "fadd x FNaN = FNaN"

fun fmul :: "fval \<Rightarrow> fval \<Rightarrow> fval" where
  "fmul (FNum m1 k1) (FNum m2 k2) = round32 (m1 * m2) (k1 + k2)"
| "fmul (FInf s) (FInf t) = FInf (s \<noteq> t)"
| "fmul (FInf s) (FNum m k) = (if m = 0 then FNaN else FInf (s \<noteq> (m < 0)))"
| "fmul (FNum m k) (FInf t) = (if m = 0 then FNaN else FInf ((m < 0) \<noteq> t))"
| "fmul FNaN y = FNaN"
| "fmul x FNaN = FNaN"

definition float_of_size_t :: "size_t \<Rightarrow> fval" where
  "float_of_size_t n = round32 (int (unat n)) 0"

definition trunc_int :: "int \<Rightarrow> int \<Rightarrow> int" where
  "trunc_int m k = (if 0 \<le> k then m * 2 ^ nat k else sgn m * (\<bar>m\<bar> div 2 ^ nat (- k)))"

definition int_of_float :: "fval \<Rightarrow> error + cint" where
  "int_of_float x =
     (case x of
        FNum m k \<Rightarrow>
          if - (2 ^ 31) \<le> trunc_int m k \<and> trunc_int m k < 2 ^ 31
          then Inr (word_of_int (trunc_int m k)) else Inl UndefinedBehaviour
      | _ \<Rightarrow> Inl UndefinedBehaviour)"

section \<open>Penalties\<close>

text \<open>
  Modelled from the spec: the \<^verbatim>\<open>Penalties\<close> table of \<^verbatim>\<open>penalty.h\<close>, which is not among the
  sources. The spec gives it four lookups, \<^verbatim>\<open>mm(q)\<close>, \<^verbatim>\<open>n(q)\<close>, \<^verbatim>\<open>ins(ex)\<close> and \<^verbatim>\<open>del(ex)\<close>,
  each from an \<^verbatim>\<open>int\<close> to an \<^verbatim>\<open>int\<close> penalty. The spec says the penalties are
  non-negative; a theorem that needs this says so in a hypothesis.
\<close>

record Penalties =
  pen_mm :: "cint \<Rightarrow> cint"
  pen_n :: "cint \<Rightarrow> cint"
  pen_ins :: "cint \<Rightarrow> cint"
  pen_del :: "cint \<Rightarrow> cint"

section \<open>Constraint\<close>

record Constraint =
  edits :: cint
  mms :: cint
  ins :: cint
  dels :: cint
  penalty :: cint
  editsCeil :: cint
  mmsCeil :: cint
  insCeil :: cint
  delsCeil :: cint
  penaltyCeil :: cint
  penConst :: cfloat
  penLinear :: cfloat
  instantiated :: bool

text \<open>
  \<^verbatim>\<open>Constraint::init\<close>: every budget and ceiling is \<^verbatim>\<open>INT_MAX\<close>, both coefficients are
  \<^verbatim>\<open>FLT_MAX\<close> (bit pattern \<open>0x7F7FFFFF\<close>).
\<close>

definition init :: Constraint where
  "init = \<lparr> edits = 0x7FFFFFFF, mms = 0x7FFFFFFF, ins = 0x7FFFFFFF, dels = 0x7FFFFFFF,
            penalty = 0x7FFFFFFF, editsCeil = 0x7FFFFFFF, mmsCeil = 0x7FFFFFFF,
            insCeil = 0x7FFFFFFF, delsCeil = 0x7FFFFFFF, penaltyCeil = 0x7FFFFFFF,
            penConst = 0x7F7FFFFF, penLinear = 0x7F7FFFFF, instantiated = False \<rparr>"

text \<open>
  The static \<^verbatim>\<open>Constraint::instantiate(rdlen, penConst, penLinear)\<close>, line 220:
  \<^verbatim>\<open>(int)(0.5f + penConst + penLinear * (float)rdlen)\<close>; \<open>0x3F000000\<close> is the pattern of
  \<^verbatim>\<open>0.5f\<close>, and \<^verbatim>\<open>+\<close> associates to the left.
\<close>

definition instantiate_static :: "size_t \<Rightarrow> cfloat \<Rightarrow> cfloat \<Rightarrow> error + cint" where
  "instantiate_static rdlen pc pl =
     int_of_float (fadd (fadd (float_of_bits 0x3F000000) (float_of_bits pc))
                        (fmul (float_of_bits pl) (float_of_size_t rdlen)))"

text \<open>
  The words of the spec for the same value, \<^verbatim>\<open>round(penConst + penLinear * rdlen)\<close>:
  \<open>exact_penalty\<close> is the number \<^verbatim>\<open>penConst + penLinear * rdlen\<close> itself, with no rounding,
  as a pair \<open>(m, k)\<close> that stands for \<open>m * 2 ^ k\<close> (for two coefficients that are
  numbers); and \<open>rounds_to (m, k) z\<close> says that the integer \<open>z\<close> is \<open>m * 2 ^ k\<close> rounded
  to an integer: it is at most one half away (either neighbour on a tie).
\<close>

definition exact_penalty :: "size_t \<Rightarrow> cfloat \<Rightarrow> cfloat \<Rightarrow> (int \<times> int) option" where
  "exact_penalty rdlen pc pl =
     (case (float_of_bits pc, float_of_bits pl) of
        (FNum m1 k1, FNum m2 k2) \<Rightarrow>
          (let k = min k1 k2
           in Some (m1 * 2 ^ nat (k1 - k) + m2 * int (unat rdlen) * 2 ^ nat (k2 - k), k))
      | _ \<Rightarrow> None)"

fun rounds_to :: "int \<times> int \<Rightarrow> int \<Rightarrow> bool" where
  "rounds_to (m, k) z =
     (if 0 \<le> k then z = m * 2 ^ nat k
      else 2 * \<bar>z * 2 ^ nat (- k) - m\<bar> \<le> 2 ^ nat (- k))"

text \<open>
  The member \<^verbatim>\<open>instantiate(rdlen)\<close>: \<^verbatim>\<open>assert(!instantiated)\<close>, the assignment to
  \<^verbatim>\<open>penalty\<close> guarded by \<^verbatim>\<open>penConst != FLT_MAX\<close>, then \<^verbatim>\<open>instantiated = true\<close>. A pattern
  differs from \<open>0x7F7FFFFF\<close> exactly when the \<^verbatim>\<open>float\<close> comparison \<^verbatim>\<open>!=\<close> holds: \<^verbatim>\<open>FLT_MAX\<close>
  has one pattern, and a not-a-number compares unequal to everything.
\<close>

definition instantiate :: "size_t \<Rightarrow> Constraint \<Rightarrow> error + Constraint" where
  "instantiate rdlen c =
     (if instantiated c then Inl AssertionFailed
      else if penConst c \<noteq> 0x7F7FFFFF
      then (case instantiate_static rdlen (penConst c) (penLinear c) of
              Inl e \<Rightarrow> Inl e
            | Inr v \<Rightarrow> Inr (c\<lparr> penalty := v, instantiated := True \<rparr>))
      else Inr (c\<lparr> instantiated := True \<rparr>))"

text \<open>The predicates. Each starts with \<^verbatim>\<open>assert(instantiated)\<close>.\<close>

definition canMismatch :: "cint \<Rightarrow> Penalties \<Rightarrow> Constraint \<Rightarrow> error + bool" where
  "canMismatch q cm c =
     (if instantiated c
      then Inr ((0 <s mms c \<or> 0 <s edits c) \<and> pen_mm cm q \<le>s penalty c)
      else Inl AssertionFailed)"

definition canN :: "cint \<Rightarrow> Penalties \<Rightarrow> Constraint \<Rightarrow> error + bool" where
  "canN q cm c =
     (if instantiated c
      then Inr ((0 <s mms c \<or> 0 <s edits c) \<and> pen_n cm q \<le>s penalty c)
      else Inl AssertionFailed)"

definition canDelete :: "cint \<Rightarrow> Penalties \<Rightarrow> Constraint \<Rightarrow> error + bool" where
  "canDelete ex cm c =
     (if instantiated c
      then Inr ((0 <s dels c \<and> 0 <s edits c) \<and> pen_del cm ex \<le>s penalty c)
      else Inl AssertionFailed)"

definition canInsert :: "cint \<Rightarrow> Penalties \<Rightarrow> Constraint \<Rightarrow> error + bool" where
  "canInsert ex cm c =
     (if instantiated c
      then Inr ((0 <s ins c \<or> 0 <s edits c) \<and> pen_ins cm ex \<le>s penalty c)
      else Inl AssertionFailed)"

text \<open>
  The charges. Each is split into the assignments of the method (\<open>_upd\<close>) and the method
  itself, which runs the assignments between the assertions of the source:
  \<^verbatim>\<open>assert(instantiated)\<close> first (and \<^verbatim>\<open>assert_gt(edits, 0)\<close> in the branch that decrements
  \<^verbatim>\<open>edits\<close>), the three \<^verbatim>\<open>assert_geq(_, 0)\<close> last.
\<close>

definition chargeMismatch_upd :: "cint \<Rightarrow> Penalties \<Rightarrow> Constraint \<Rightarrow> Constraint" where
  "chargeMismatch_upd q cm c =
     (let c1 = (if mms c = 0 then c\<lparr>edits := edits c - 1\<rparr> else c\<lparr>mms := mms c - 1\<rparr>)
      in c1\<lparr>penalty := penalty c1 - pen_mm cm q\<rparr>)"

definition chargeMismatch :: "cint \<Rightarrow> Penalties \<Rightarrow> Constraint \<Rightarrow> error + Constraint" where
  "chargeMismatch q cm c =
     (if \<not> instantiated c then Inl AssertionFailed
      else if mms c = 0 \<and> \<not> 0 <s edits c then Inl AssertionFailed
      else let c' = chargeMismatch_upd q cm c
           in if 0 \<le>s mms c' \<and> 0 \<le>s edits c' \<and> 0 \<le>s penalty c'
              then Inr c' else Inl AssertionFailed)"

definition chargeN_upd :: "cint \<Rightarrow> Penalties \<Rightarrow> Constraint \<Rightarrow> Constraint" where
  "chargeN_upd q cm c =
     (let c1 = (if mms c = 0 then c\<lparr>edits := edits c - 1\<rparr> else c\<lparr>mms := mms c - 1\<rparr>)
      in c1\<lparr>penalty := penalty c1 - pen_n cm q\<rparr>)"

definition chargeN :: "cint \<Rightarrow> Penalties \<Rightarrow> Constraint \<Rightarrow> error + Constraint" where
  "chargeN q cm c =
     (if \<not> instantiated c then Inl AssertionFailed
      else if mms c = 0 \<and> \<not> 0 <s edits c then Inl AssertionFailed
      else let c' = chargeN_upd q cm c
           in if 0 \<le>s mms c' \<and> 0 \<le>s edits c' \<and> 0 \<le>s penalty c'
              then Inr c' else Inl AssertionFailed)"

definition chargeDelete_upd :: "cint \<Rightarrow> Penalties \<Rightarrow> Constraint \<Rightarrow> Constraint" where
  "chargeDelete_upd ex cm c =
     c\<lparr>dels := dels c - 1, edits := edits c - 1, penalty := penalty c - pen_del cm ex\<rparr>"

definition chargeDelete :: "cint \<Rightarrow> Penalties \<Rightarrow> Constraint \<Rightarrow> error + Constraint" where
  "chargeDelete ex cm c =
     (if \<not> instantiated c then Inl AssertionFailed
      else let c' = chargeDelete_upd ex cm c
           in if 0 \<le>s dels c' \<and> 0 \<le>s edits c' \<and> 0 \<le>s penalty c'
              then Inr c' else Inl AssertionFailed)"

definition chargeInsert_upd :: "cint \<Rightarrow> Penalties \<Rightarrow> Constraint \<Rightarrow> Constraint" where
  "chargeInsert_upd ex cm c =
     c\<lparr>ins := ins c - 1, edits := edits c - 1, penalty := penalty c - pen_ins cm ex\<rparr>"

definition chargeInsert :: "cint \<Rightarrow> Penalties \<Rightarrow> Constraint \<Rightarrow> error + Constraint" where
  "chargeInsert ex cm c =
     (if \<not> instantiated c then Inl AssertionFailed
      else let c' = chargeInsert_upd ex cm c
           in if 0 \<le>s ins c' \<and> 0 \<le>s edits c' \<and> 0 \<le>s penalty c'
              then Inr c' else Inl AssertionFailed)"

text \<open>
  Concrete values used below: a table with every penalty 0 but the mismatch penalty 30,
  and one whose mismatch penalty is \<open>- 1\<close>; an instantiated constraint with no insertion
  left and one edit left; one with one mismatch left; one with \<^verbatim>\<open>mms = -1\<close> and
  \<^verbatim>\<open>edits = 5\<close>; one with \<^verbatim>\<open>mms = 1\<close> and \<^verbatim>\<open>edits = -1\<close>; one with every budget at
  \<^verbatim>\<open>INT_MAX\<close>; and two constraints that are not instantiated, with \<^verbatim>\<open>penLinear = 1.0f\<close>
  (pattern \<open>0x3F800000\<close>) and \<^verbatim>\<open>penConst = -3.75f\<close> (pattern \<open>0xC0700000\<close>) or
  \<^verbatim>\<open>penConst = 0.49999997f\<close> (pattern \<open>0x3EFFFFFF\<close>, the \<^verbatim>\<open>float\<close> next below \<^verbatim>\<open>0.5f\<close>).
\<close>

definition pens0 :: Penalties where
  "pens0 = \<lparr> pen_mm = (\<lambda>q. 30), pen_n = (\<lambda>q. 0), pen_ins = (\<lambda>ex. 0), pen_del = (\<lambda>ex. 0) \<rparr>"

definition cons_noins :: Constraint where
  "cons_noins = init\<lparr> edits := 1, ins := 0, penalty := 10, instantiated := True \<rparr>"

definition cons_1mm :: Constraint where
  "cons_1mm = init\<lparr> edits := 0, mms := 1, ins := 0, dels := 0, penalty := 30,
                    instantiated := True \<rparr>"

definition pens_neg :: Penalties where
  "pens_neg = \<lparr> pen_mm = (\<lambda>q. - 1), pen_n = (\<lambda>q. 0), pen_ins = (\<lambda>ex. 0), pen_del = (\<lambda>ex. 0) \<rparr>"

definition cons_negmms :: Constraint where
  "cons_negmms = init\<lparr> edits := 5, mms := - 1, penalty := 100, instantiated := True \<rparr>"

definition cons_negedits :: Constraint where
  "cons_negedits = init\<lparr> edits := - 1, mms := 1, penalty := 100, instantiated := True \<rparr>"

definition cons_max :: Constraint where
  "cons_max = init\<lparr> instantiated := True \<rparr>"

definition cons_neg :: Constraint where
  "cons_neg = init\<lparr> penConst := 0xC0700000, penLinear := 0x3F800000 \<rparr>"

definition cons_half :: Constraint where
  "cons_half = init\<lparr> penConst := 0x3EFFFFFF, penLinear := 0x3F800000 \<rparr>"

section \<open>Seed policies\<close>

text \<open>
  \<^verbatim>\<open>Seed\<close> holds a length, a type, a pointer to the overall constraint (an address, \<open>None\<close>
  for \<^verbatim>\<open>NULL\<close>) and three zone constraints.
\<close>

record Seed =
  len :: cint
  seed_type :: cint
  overall :: "nat option"
  zones :: "Constraint list"

text \<open>
  \<^verbatim>\<open>Seed::mmSeeds(mms, ln, pols, oall)\<close>; its argument \<^verbatim>\<open>mms\<close> is written \<open>nmms\<close>, the
  name \<open>mms\<close> being the field of \<open>Constraint\<close>. The three builders \<^verbatim>\<open>zeroMmSeeds\<close>, \<^verbatim>\<open>oneMmSeeds\<close>
  and \<^verbatim>\<open>twoMmSeeds\<close> are declared in the header and defined elsewhere, so they are
  parameters here: each takes \<^verbatim>\<open>ln\<close> and the two objects passed by reference
  (\<^verbatim>\<open>pols\<close>, \<^verbatim>\<open>oall\<close>) and returns them updated, or fails.
\<close>

type_synonym policies = "Seed list \<times> Constraint"
type_synonym builder = "cint \<Rightarrow> policies \<Rightarrow> error + policies"

definition mmSeeds :: "builder \<Rightarrow> builder \<Rightarrow> builder \<Rightarrow> cint \<Rightarrow> cint \<Rightarrow> policies \<Rightarrow> error + policies" where
  "mmSeeds zeroMmSeeds oneMmSeeds twoMmSeeds nmms ln st =
     (if nmms = 0 then zeroMmSeeds ln st
      else if nmms = 1 then oneMmSeeds ln st
      else if nmms = 2 then twoMmSeeds ln st
      else Inl (Thrown 1))"

text \<open>
  Three builders that only leave a mark (the mark is the length of the policy list they
  return: 1, 2, 3): they make visible which one \<open>mmSeeds\<close> called.
\<close>

definition mark :: "nat \<Rightarrow> builder" where
  "mark k ln st = Inr (replicate k \<lparr> len = ln, seed_type = 0, overall = None, zones = [] \<rparr>, snd st)"

definition marked :: "error + policies \<Rightarrow> nat option" where
  "marked r = (case r of Inl e \<Rightarrow> None | Inr st \<Rightarrow> Some (length (fst st)))"

section \<open>SeedSearchMetrics\<close>

text \<open>
  The eight \<^verbatim>\<open>uint64_t\<close> counters. The \<^verbatim>\<open>lock\<close> member and the \<^verbatim>\<open>getLock\<close> argument only
  serialise threads; \<open>getLock\<close> is kept as an argument and has no effect on the counters.
\<close>

record SeedSearchMetrics =
  seedsearch :: uint64
  possearch :: uint64
  intrahit :: uint64
  interhit :: uint64
  filteredseed :: uint64
  ooms :: uint64
  bwops :: uint64
  bweds :: uint64

definition SeedSearchMetrics_merge :: "SeedSearchMetrics \<Rightarrow> bool \<Rightarrow> SeedSearchMetrics \<Rightarrow> SeedSearchMetrics" where
  "SeedSearchMetrics_merge m getLock this =
     this\<lparr> seedsearch := seedsearch this + seedsearch m,
           possearch := possearch this + possearch m,
           intrahit := intrahit this + intrahit m,
           interhit := interhit this + interhit m,
           filteredseed := filteredseed this + filteredseed m,
           ooms := ooms this + ooms m,
           bwops := bwops this + bwops m,
           bweds := bweds this + bweds m \<rparr>"

definition SeedSearchMetrics_reset :: "SeedSearchMetrics \<Rightarrow> SeedSearchMetrics" where
  "SeedSearchMetrics_reset this =
     this\<lparr> seedsearch := 0, possearch := 0, intrahit := 0, interhit := 0,
           filteredseed := 0, ooms := 0, bwops := 0, bweds := 0 \<rparr>"

section \<open>QVal and the alignment cache\<close>

text \<open>
  Modelled from the spec: \<^verbatim>\<open>QVal\<close> of \<^verbatim>\<open>aligner_cache.h\<close>, which is not among the sources.
  The spec calls it an opaque descriptor of a set of index intervals and lists what
  \<^verbatim>\<open>SeedResults\<close> asks of it: \<^verbatim>\<open>valid()\<close>, \<^verbatim>\<open>empty()\<close>, \<^verbatim>\<open>numRanges()\<close>, \<^verbatim>\<open>numElts()\<close> and
  \<^verbatim>\<open>repOk(cache)\<close>. A \<open>QVal\<close> is the record of the four answers; the two counts are
  \<^verbatim>\<open>uint32_t\<close>, which is the type \<^verbatim>\<open>SeedResults::sort\<close> compares them at.
\<close>

record QVal =
  qv_valid :: bool
  qv_empty :: bool
  qv_numRanges :: uint32
  qv_numElts :: uint32

text \<open>
  Modelled from the spec: \<^verbatim>\<open>QVal::reset()\<close>, called by \<^verbatim>\<open>SeedResults::reset\<close> on every bucket:
  the bucket holds no valid \<open>QVal\<close> afterwards. \<^verbatim>\<open>SeedResults\<close> reads the other three
  answers of a bucket only after \<^verbatim>\<open>valid()\<close> returned true, so their values here are
  immaterial.
\<close>

definition QVal_reset :: QVal where
  "QVal_reset = \<lparr> qv_valid = False, qv_empty = False, qv_numRanges = 0xFFFFFFFF,
                   qv_numElts = 0xFFFFFFFF \<rparr>"

text \<open>
  Modelled from the spec: \<^verbatim>\<open>AlignmentCache\<close> and \<^verbatim>\<open>QVal::repOk(cache)\<close>, ``\<^verbatim>\<open>qv\<close> valid with
  respect to the cache''. The cache is seen through the one question asked of it (does
  this \<open>QVal\<close> point into it correctly). A \<open>QVal\<close> that passes is \<^verbatim>\<open>valid()\<close>, and its
  \<^verbatim>\<open>numElts()\<close> elements are those of its \<^verbatim>\<open>numRanges()\<close> intervals, none of them empty:
  there is at least one element per range (\<^verbatim>\<open>SeedResults::repOk\<close> asserts the same of the
  sums, \<^verbatim>\<open>numRanges_ <= numElts_\<close>), and no element when there is no range.
\<close>

type_synonym AlignmentCache = "QVal \<Rightarrow> bool"

definition QVal_repOk :: "AlignmentCache \<Rightarrow> QVal \<Rightarrow> bool" where
  "QVal_repOk ac qv =
     (qv_valid qv \<and> qv_numRanges qv \<le> qv_numElts qv \<and>
      (qv_numRanges qv = 0 \<longrightarrow> qv_numElts qv = 0) \<and> ac qv)"

section \<open>SeedResults\<close>

text \<open>
  The members of \<^verbatim>\<open>SeedResults\<close> that \<^verbatim>\<open>add\<close>, \<^verbatim>\<open>reset\<close>, \<^verbatim>\<open>clear\<close>, \<^verbatim>\<open>repOk\<close>, \<^verbatim>\<open>sort\<close>,
  \<^verbatim>\<open>nonzeroOffsets\<close> and \<^verbatim>\<open>hitsByRank\<close> read or assign. An \<^verbatim>\<open>EList<T>\<close> is a list; its
  \<^verbatim>\<open>operator[]\<close> asserts that the index is below the size, which the model writes out as a
  failure. The nine \<^verbatim>\<open>size_t\<close> counters are \<open>64 word\<close>s, and the additions of \<^verbatim>\<open>add\<close>
  wrap as they do in the code. \<^verbatim>\<open>numOffs_\<close>, also a \<^verbatim>\<open>size_t\<close>, is only assigned and
  compared, never computed with; it is kept as its value, a \<open>nat\<close>, and so is the size of
  a list. The pointer \<^verbatim>\<open>read_\<close> is an address, \<open>None\<close> for \<^verbatim>\<open>NULL\<close>. An index of type
  \<^verbatim>\<open>uint32_t\<close> stored in \<^verbatim>\<open>rankOffs_\<close> is kept as its value, a \<open>nat\<close>. A member \<^verbatim>\<open>x_\<close> of
  the class is the field \<open>x_m\<close> of the record, since a name cannot end with an underscore
  here.

  Left out: \<^verbatim>\<open>seqFw_\<close>, \<^verbatim>\<open>seqRc_\<close>, \<^verbatim>\<open>qualFw_\<close>, \<^verbatim>\<open>qualRc_\<close>, \<^verbatim>\<open>isFw_\<close> and \<^verbatim>\<open>isRc_\<close>. The methods
  above never read them and only \<^verbatim>\<open>reset\<close> touches them (it resizes them to \<^verbatim>\<open>numOffs_\<close> and
  clears each list of \<^verbatim>\<open>isFw_\<close>, \<^verbatim>\<open>isRc_\<close>); \<^verbatim>\<open>hitsByRank\<close> reads a sequence length for its
  output \<^verbatim>\<open>seedlen\<close>, which is left out with them.
\<close>

record SeedResults =
  hitsFw_m :: "QVal list"
  hitsRc_m :: "QVal list"
  sortedFw_m :: "bool list"
  sortedRc_m :: "bool list"
  nonzTot_m :: size_t
  nonzFw_m :: size_t
  nonzRc_m :: size_t
  numRanges_m :: size_t
  numElts_m :: size_t
  numRangesFw_m :: size_t
  numEltsFw_m :: size_t
  numRangesRc_m :: size_t
  numEltsRc_m :: size_t
  offIdx2off_m :: "uint32 list"
  rankOffs_m :: "nat list"
  rankFws_m :: "bool list"
  sorted_m :: bool
  numOffs_m :: nat
  read_m :: "nat option"

subsection \<open>repOk\<close>

text \<open>
  \<^verbatim>\<open>repOk(ac, requireInited)\<close> returns true or stops at a failed assertion; \<open>repOk\<close> is
  true when every assertion passes. \<open>count_nonz rrs n\<close> is the number of times the inner
  loop increments \<^verbatim>\<open>nonzs\<close> for one orientation; the outer loop takes \<^verbatim>\<open>hitsRc_\<close> first
  (\<^verbatim>\<open>fw = 0\<close>). \<^verbatim>\<open>nonzs\<close> is a \<^verbatim>\<open>size_t\<close> that starts at 0, so its final value is
  \<open>of_nat\<close> of the number of increments.
\<close>

definition count_nonz :: "QVal list \<Rightarrow> nat \<Rightarrow> nat" where
  "count_nonz rrs n =
     length (filter (\<lambda>i. qv_valid (rrs ! i) \<and> 0 < qv_numRanges (rrs ! i)) [0..<n])"

definition buckets_repOk :: "AlignmentCache option \<Rightarrow> QVal list \<Rightarrow> nat \<Rightarrow> bool" where
  "buckets_repOk ac rrs n =
     (case ac of None \<Rightarrow> True
      | Some c \<Rightarrow> list_all (\<lambda>i. qv_valid (rrs ! i) \<longrightarrow> QVal_repOk c (rrs ! i)) [0..<n])"

definition repOk :: "AlignmentCache option \<Rightarrow> bool \<Rightarrow> SeedResults \<Rightarrow> bool" where
  "repOk ac requireInited s =
     (if requireInited \<and> read_m s = None then False
      else if read_m s = None then True
      else 0 < numOffs_m s \<and>
           numOffs_m s = length (hitsFw_m s) \<and>
           numOffs_m s = length (hitsRc_m s) \<and>
           numRanges_m s \<le> numElts_m s \<and>
           nonzTot_m s \<le> numRanges_m s \<and>
           buckets_repOk ac (hitsRc_m s) (numOffs_m s) \<and>
           buckets_repOk ac (hitsFw_m s) (numOffs_m s) \<and>
           of_nat (count_nonz (hitsRc_m s) (numOffs_m s) + count_nonz (hitsFw_m s) (numOffs_m s)) =
             nonzTot_m s)"

subsection \<open>clear and reset\<close>

definition SeedResults_clear :: "SeedResults \<Rightarrow> SeedResults" where
  "SeedResults_clear s =
     s\<lparr> sortedFw_m := [], sortedRc_m := [], rankOffs_m := [], rankFws_m := [],
        nonzTot_m := 0, nonzFw_m := 0, nonzRc_m := 0, numRanges_m := 0, numElts_m := 0,
        numRangesFw_m := 0, numEltsFw_m := 0, numRangesRc_m := 0, numEltsRc_m := 0,
        read_m := None \<rparr>"

text \<open>
  \<^verbatim>\<open>reset(read, offIdx2off, numOffs)\<close>: \<^verbatim>\<open>assert_gt(numOffs, 0)\<close>, \<^verbatim>\<open>clear()\<close>, then the four
  lists \<^verbatim>\<open>hitsFw_\<close>, \<^verbatim>\<open>hitsRc_\<close>, \<^verbatim>\<open>sortedFw_\<close>, \<^verbatim>\<open>sortedRc_\<close> are resized to \<^verbatim>\<open>numOffs_\<close> and
  the loop assigns every one of their \<^verbatim>\<open>numOffs_\<close> slots (\<^verbatim>\<open>false\<close>, or a \<open>QVal\<close> that was
  \<^verbatim>\<open>reset()\<close>), so each is \<open>numOffs\<close> copies of that value. The read is given by its
  address.
\<close>

definition SeedResults_reset :: "nat \<Rightarrow> uint32 list \<Rightarrow> nat \<Rightarrow> SeedResults \<Rightarrow> error + SeedResults" where
  "SeedResults_reset read offIdx2off numOffs s =
     (if \<not> 0 < numOffs then Inl AssertionFailed
      else Inr ((SeedResults_clear s)
             \<lparr> numOffs_m := numOffs,
               hitsFw_m := replicate numOffs QVal_reset,
               hitsRc_m := replicate numOffs QVal_reset,
               sortedFw_m := replicate numOffs False,
               sortedRc_m := replicate numOffs False,
               offIdx2off_m := offIdx2off,
               read_m := Some read,
               sorted_m := False \<rparr>))"

subsection \<open>add\<close>

text \<open>
  The assignments of \<^verbatim>\<open>add\<close> for a \<open>QVal\<close> that is not empty: the bucket and the counters
  of the orientation, then the totals. \<open>i\<close> is the value of \<^verbatim>\<open>seedIdx\<close>. Each \<^verbatim>\<open>+=\<close> adds
  a \<^verbatim>\<open>uint32_t\<close>, converted to \<^verbatim>\<open>size_t\<close>, to a \<^verbatim>\<open>size_t\<close>, modulo \<open>2 ^ 64\<close>.
\<close>

definition add_upd :: "QVal \<Rightarrow> nat \<Rightarrow> bool \<Rightarrow> SeedResults \<Rightarrow> SeedResults" where
  "add_upd qv i seedFw s =
     (let s1 = (if seedFw
                then s\<lparr> hitsFw_m := (hitsFw_m s)[i := qv],
                        numEltsFw_m := numEltsFw_m s + ucast (qv_numElts qv),
                        numRangesFw_m := numRangesFw_m s + ucast (qv_numRanges qv),
                        nonzFw_m := nonzFw_m s + (if 0 < qv_numRanges qv then 1 else 0) \<rparr>
                else s\<lparr> hitsRc_m := (hitsRc_m s)[i := qv],
                        numEltsRc_m := numEltsRc_m s + ucast (qv_numElts qv),
                        numRangesRc_m := numRangesRc_m s + ucast (qv_numRanges qv),
                        nonzRc_m := nonzRc_m s + (if 0 < qv_numRanges qv then 1 else 0) \<rparr>)
      in s1\<lparr> numElts_m := numElts_m s1 + ucast (qv_numElts qv),
             numRanges_m := numRanges_m s1 + ucast (qv_numRanges qv),
             nonzTot_m := nonzTot_m s1 + (if 0 < qv_numRanges qv then 1 else 0) \<rparr>)"

text \<open>
  \<^verbatim>\<open>add(qv, ac, seedIdx, seedFw, seedLen)\<close> with its assertions in the order of the source:
  \<^verbatim>\<open>qv.repOk(ac)\<close>, \<^verbatim>\<open>repOk(&ac)\<close>, \<^verbatim>\<open>seedIdx < hitsFw_.size()\<close>, \<^verbatim>\<open>numOffs_ > 0\<close>; the return
  for an empty \<open>QVal\<close>; the bucket of the orientation must not be valid yet; the
  assignments; \<^verbatim>\<open>repOk(&ac)\<close> again. \<^verbatim>\<open>seedLen\<close> is not used by the source.
\<close>

definition add :: "QVal \<Rightarrow> AlignmentCache \<Rightarrow> uint32 \<Rightarrow> bool \<Rightarrow> uint32 \<Rightarrow> SeedResults \<Rightarrow> error + SeedResults" where
  "add qv ac seedIdx seedFw seedLen s =
     (if \<not> QVal_repOk ac qv then Inl AssertionFailed
      else if \<not> repOk (Some ac) False s then Inl AssertionFailed
      else if \<not> unat seedIdx < length (hitsFw_m s) then Inl AssertionFailed
      else if \<not> 0 < numOffs_m s then Inl AssertionFailed
      else if qv_empty qv then Inr s
      else if \<not> unat seedIdx < length (if seedFw then hitsFw_m s else hitsRc_m s)
        then Inl AssertionFailed
      else if qv_valid ((if seedFw then hitsFw_m s else hitsRc_m s) ! unat seedIdx)
        then Inl AssertionFailed
      else if \<not> repOk (Some ac) False (add_upd qv (unat seedIdx) seedFw s)
        then Inl AssertionFailed
      else Inr (add_upd qv (unat seedIdx) seedFw s))"

subsection \<open>sort\<close>

text \<open>
  The three variables of the selection, \<^verbatim>\<open>minsz\<close>, \<^verbatim>\<open>minfw\<close> and \<^verbatim>\<open>minidx\<close>, as a triple.
  \<open>scan_bucket\<close> is the body of the inner loop at index \<open>i\<close>: the condition is evaluated
  left to right, so \<^verbatim>\<open>sorted[i]\<close> is read only for a valid bucket with an element.
\<close>

type_synonym minimum = "uint32 \<times> bool \<times> nat"

definition scan_bucket :: "QVal list \<Rightarrow> bool list \<Rightarrow> bool \<Rightarrow> nat \<Rightarrow> minimum \<Rightarrow> error + minimum" where
  "scan_bucket rrs sorted' fw i m =
     (if \<not> i < length rrs then Inl AssertionFailed
      else if qv_valid (rrs ! i) \<and> 0 < qv_numElts (rrs ! i)
      then (if \<not> i < length sorted' then Inl AssertionFailed
            else if \<not> sorted' ! i \<and> qv_numElts (rrs ! i) < fst m
            then Inr (qv_numElts (rrs ! i), fw, i)
            else Inr m)
      else Inr m)"

fun scan_buckets :: "QVal list \<Rightarrow> bool list \<Rightarrow> bool \<Rightarrow> nat list \<Rightarrow> minimum \<Rightarrow> error + minimum" where
  "scan_buckets rrs sorted' fw [] m = Inr m"
| "scan_buckets rrs sorted' fw (i # is) m =
     (case scan_bucket rrs sorted' fw i m of
        Inl e \<Rightarrow> Inl e
      | Inr m' \<Rightarrow> scan_buckets rrs sorted' fw is m')"

text \<open>
  One selection: \<^verbatim>\<open>minsz = 0xffffffff\<close>, \<^verbatim>\<open>minidx = 0\<close>, \<^verbatim>\<open>minfw = true\<close>, then the loop over
  \<^verbatim>\<open>fw = 0\<close> (the buckets of \<^verbatim>\<open>hitsRc_\<close>) and \<^verbatim>\<open>fw = 1\<close> (those of \<^verbatim>\<open>hitsFw_\<close>), each over
  \<^verbatim>\<open>i = 0 .. numOffs_ - 1\<close>. The index \<^verbatim>\<open>i\<close> is a \<^verbatim>\<open>uint32_t\<close>: for \<^verbatim>\<open>numOffs_\<close> of \<open>2 ^ 32\<close>
  or more the inner loop never ends (\<open>NoReturn\<close>), unless an index assertion stops it
  during its first \<open>2 ^ 32\<close> rounds.
\<close>

definition find_min :: "SeedResults \<Rightarrow> error + minimum" where
  "find_min s =
     (if numOffs_m s < 2 ^ 32
      then (case scan_buckets (hitsRc_m s) (sortedRc_m s) False [0..<numOffs_m s]
                   (0xFFFFFFFF, True, 0) of
              Inl e \<Rightarrow> Inl e
            | Inr m \<Rightarrow> scan_buckets (hitsFw_m s) (sortedFw_m s) True [0..<numOffs_m s] m)
      else (case scan_buckets (hitsRc_m s) (sortedRc_m s) False [0..<2 ^ 32]
                   (0xFFFFFFFF, True, 0) of
              Inl e \<Rightarrow> Inl e
            | Inr m \<Rightarrow> Inl NoReturn))"

text \<open>
  The rest of one round of the \<^verbatim>\<open>while\<close> loop, after the selection: \<^verbatim>\<open>assert_neq(0xffffffff,
  minsz)\<close>, the flag of the selected bucket, the two \<^verbatim>\<open>push_back\<close>.
\<close>

definition push_rank :: "minimum \<Rightarrow> SeedResults \<Rightarrow> error + SeedResults" where
  "push_rank m s =
     (case m of (minsz, minfw, minidx) \<Rightarrow>
        if minsz = 0xFFFFFFFF then Inl AssertionFailed
        else if \<not> minidx < length (if minfw then sortedFw_m s else sortedRc_m s)
        then Inl AssertionFailed
        else Inr ((if minfw then s\<lparr> sortedFw_m := (sortedFw_m s)[minidx := True] \<rparr>
                   else s\<lparr> sortedRc_m := (sortedRc_m s)[minidx := True] \<rparr>)
                  \<lparr> rankOffs_m := rankOffs_m s @ [minidx], rankFws_m := rankFws_m s @ [minfw] \<rparr>))"

definition sort_round :: "SeedResults \<Rightarrow> error + SeedResults" where
  "sort_round s = (case find_min s of Inl e \<Rightarrow> Inl e | Inr m \<Rightarrow> push_rank m s)"

text \<open>
  The \<^verbatim>\<open>while\<close> loop. Every round that does not fail makes \<^verbatim>\<open>rankOffs_\<close> one longer and
  leaves \<^verbatim>\<open>nonzTot_\<close> alone, so the loop ends.
\<close>

lemma sort_round_measure:
  assumes "sort_round s = Inr s'" and "length (rankOffs_m s) < unat (nonzTot_m s)"
  shows "unat (nonzTot_m s') - length (rankOffs_m s') < unat (nonzTot_m s) - length (rankOffs_m s)"
  using assms
  by (auto simp: sort_round_def push_rank_def split: sum.splits prod.splits if_splits)

function sort_loop :: "SeedResults \<Rightarrow> error + SeedResults" where
  "sort_loop s =
     (if length (rankOffs_m s) < unat (nonzTot_m s)
      then (case sort_round s of Inl e \<Rightarrow> Inl e | Inr s' \<Rightarrow> sort_loop s')
      else Inr s)"
  by pat_completeness auto
termination
  by (relation "measure (\<lambda>s. unat (nonzTot_m s) - length (rankOffs_m s))")
    (simp_all add: sort_round_measure)

declare sort_loop.simps [simp del]

definition SeedResults_sort :: "SeedResults \<Rightarrow> error + SeedResults" where
  "SeedResults_sort s =
     (case sort_loop s of
        Inl e \<Rightarrow> Inl e
      | Inr s' \<Rightarrow>
          if length (rankOffs_m s') = length (rankFws_m s')
          then Inr (s'\<lparr> sorted_m := True \<rparr>)
          else Inl AssertionFailed)"

subsection \<open>nonzeroOffsets and hitsByRank\<close>

definition nonzeroOffsets :: "SeedResults \<Rightarrow> error + size_t" where
  "nonzeroOffsets s =
     (if sorted_m s \<and> unat (nonzTot_m s) \<noteq> length (rankFws_m s) then Inl AssertionFailed
      else if sorted_m s \<and> unat (nonzTot_m s) \<noteq> length (rankOffs_m s) then Inl AssertionFailed
      else Inr (nonzTot_m s))"

text \<open>
  \<^verbatim>\<open>hitsByRank(r, offidx, off, fw, seedlen)\<close> returns the bucket of rank \<open>r\<close>; the outputs
  \<^verbatim>\<open>offidx\<close>, \<^verbatim>\<open>off\<close> and \<^verbatim>\<open>fw\<close> come with it. The rank \<open>r\<close>, a \<^verbatim>\<open>size_t\<close>, is given by its
  value.
\<close>

definition hitsByRank :: "nat \<Rightarrow> SeedResults \<Rightarrow> error + (QVal \<times> nat \<times> uint32 \<times> bool)" where
  "hitsByRank r s =
     (if \<not> sorted_m s then Inl AssertionFailed
      else if \<not> r < unat (nonzTot_m s) then Inl AssertionFailed
      else if \<not> r < length (rankFws_m s) then Inl AssertionFailed
      else if \<not> r < length (rankOffs_m s) then Inl AssertionFailed
      else if \<not> rankOffs_m s ! r < length (offIdx2off_m s) then Inl AssertionFailed
      else if \<not> rankOffs_m s ! r < length (if rankFws_m s ! r then hitsFw_m s else hitsRc_m s)
        then Inl AssertionFailed
      else Inr ((if rankFws_m s ! r then hitsFw_m s else hitsRc_m s) ! (rankOffs_m s ! r),
                rankOffs_m s ! r,
                offIdx2off_m s ! (rankOffs_m s ! r),
                rankFws_m s ! r))"

subsection \<open>Sequences of reset and add\<close>

text \<open>
  The invariant of C10, for an object that has been reset (\<^verbatim>\<open>read_\<close> is set and the two
  bucket lists have \<^verbatim>\<open>numOffs_\<close> slots, as \<^verbatim>\<open>repOk\<close> asserts): \<^verbatim>\<open>nonzTot_\<close> is the number
  of buckets that hold a valid \<open>QVal\<close> with at least one range (as a \<^verbatim>\<open>size_t\<close>),
  \<^verbatim>\<open>nonzTot_ <= numRanges_ <= numElts_\<close>, and the counters of the two orientations add up
  to the totals (sums of \<^verbatim>\<open>size_t\<close>).
\<close>

definition counters_inv :: "SeedResults \<Rightarrow> bool" where
  "counters_inv s =
     (read_m s \<noteq> None \<and>
      length (hitsFw_m s) = numOffs_m s \<and>
      length (hitsRc_m s) = numOffs_m s \<and>
      nonzTot_m s =
        of_nat (count_nonz (hitsRc_m s) (numOffs_m s) + count_nonz (hitsFw_m s) (numOffs_m s)) \<and>
      nonzTot_m s \<le> numRanges_m s \<and>
      numRanges_m s \<le> numElts_m s \<and>
      numEltsFw_m s + numEltsRc_m s = numElts_m s \<and>
      numRangesFw_m s + numRangesRc_m s = numRanges_m s \<and>
      nonzFw_m s + nonzRc_m s = nonzTot_m s)"

text \<open>
  The bound under which no addition of \<^verbatim>\<open>add\<close> wraps: there are at most \<open>2 ^ 31\<close>
  offsets, and each counter is at most \<open>2 ^ 32 - 1\<close> times the number of valid buckets it
  was summed over (a bucket is assigned once and adds a \<^verbatim>\<open>uint32_t\<close> to a counter).
  \<^verbatim>\<open>reset\<close> establishes it and \<^verbatim>\<open>add\<close> keeps it (lemma \<open>counters_fit_run_calls\<close>).
\<close>

definition count_valid :: "QVal list \<Rightarrow> nat \<Rightarrow> nat" where
  "count_valid rrs n = length (filter (\<lambda>i. qv_valid (rrs ! i)) [0..<n])"

definition fits :: "size_t \<Rightarrow> nat \<Rightarrow> bool" where
  "fits x c = (unat x \<le> 4294967295 * c)"

definition counters_fit :: "SeedResults \<Rightarrow> bool" where
  "counters_fit s =
     (numOffs_m s \<le> 2 ^ 31 \<and>
      length (hitsFw_m s) = numOffs_m s \<and> length (hitsRc_m s) = numOffs_m s \<and>
      fits (numEltsFw_m s) (count_valid (hitsFw_m s) (numOffs_m s)) \<and>
      fits (numRangesFw_m s) (count_valid (hitsFw_m s) (numOffs_m s)) \<and>
      fits (nonzFw_m s) (count_valid (hitsFw_m s) (numOffs_m s)) \<and>
      fits (numEltsRc_m s) (count_valid (hitsRc_m s) (numOffs_m s)) \<and>
      fits (numRangesRc_m s) (count_valid (hitsRc_m s) (numOffs_m s)) \<and>
      fits (nonzRc_m s) (count_valid (hitsRc_m s) (numOffs_m s)) \<and>
      fits (numElts_m s)
        (count_valid (hitsRc_m s) (numOffs_m s) + count_valid (hitsFw_m s) (numOffs_m s)) \<and>
      fits (numRanges_m s)
        (count_valid (hitsRc_m s) (numOffs_m s) + count_valid (hitsFw_m s) (numOffs_m s)) \<and>
      fits (nonzTot_m s)
        (count_valid (hitsRc_m s) (numOffs_m s) + count_valid (hitsFw_m s) (numOffs_m s)))"

text \<open>
  A call of \<^verbatim>\<open>reset\<close> or of \<^verbatim>\<open>add\<close> with its arguments, and a sequence of calls on one
  object; a failed assertion ends the sequence.
\<close>

datatype call = Reset nat "uint32 list" nat | Add QVal AlignmentCache uint32 bool uint32

fun run_call :: "call \<Rightarrow> SeedResults \<Rightarrow> error + SeedResults" where
  "run_call (Reset read offIdx2off numOffs) s = SeedResults_reset read offIdx2off numOffs s"
| "run_call (Add qv ac seedIdx seedFw seedLen) s = add qv ac seedIdx seedFw seedLen s"

fun run_calls :: "call list \<Rightarrow> SeedResults \<Rightarrow> error + SeedResults" where
  "run_calls [] s = Inr s"
| "run_calls (c # cs) s = (case run_call c s of Inl e \<Rightarrow> Inl e | Inr s' \<Rightarrow> run_calls cs s')"

text \<open>The call of \<^verbatim>\<open>add\<close> with the given five arguments.\<close>

fun add_call :: "QVal \<times> AlignmentCache \<times> uint32 \<times> bool \<times> uint32 \<Rightarrow> call" where
  "add_call (qv, ac, seedIdx, seedFw, seedLen) = Add qv ac seedIdx seedFw seedLen"

subsection \<open>The order that sort leaves\<close>

text \<open>
  A slot is a bucket of one orientation: \<open>(fw, i)\<close> is \<^verbatim>\<open>hitsFw_[i]\<close> when \<open>fw\<close> holds and
  \<^verbatim>\<open>hitsRc_[i]\<close> otherwise. \<open>nonempty_slot\<close> is the test of \<^verbatim>\<open>sort\<close> for a bucket to rank: the
  index is below \<^verbatim>\<open>numOffs_\<close>, the bucket is valid and has at least one element.
  \<open>slot_sorted\<close> is its flag in \<^verbatim>\<open>sortedFw_\<close> or \<^verbatim>\<open>sortedRc_\<close>, and \<open>ranked\<close> pairs
  \<^verbatim>\<open>rankFws_\<close> with \<^verbatim>\<open>rankOffs_\<close>.
\<close>

type_synonym slot = "bool \<times> nat"

definition bucket :: "SeedResults \<Rightarrow> slot \<Rightarrow> QVal" where
  "bucket s p = (if fst p then hitsFw_m s else hitsRc_m s) ! snd p"

definition slot_sorted :: "SeedResults \<Rightarrow> slot \<Rightarrow> bool" where
  "slot_sorted s p = (if fst p then sortedFw_m s else sortedRc_m s) ! snd p"

definition nonempty_slot :: "SeedResults \<Rightarrow> slot \<Rightarrow> bool" where
  "nonempty_slot s p =
     (snd p < numOffs_m s \<and> qv_valid (bucket s p) \<and> 0 < qv_numElts (bucket s p))"

definition ranked :: "SeedResults \<Rightarrow> slot list" where
  "ranked s = zip (rankFws_m s) (rankOffs_m s)"

text \<open>
  \<open>scan_order n\<close> lists the slots in the order in which the two nested loops of \<^verbatim>\<open>sort\<close>
  visit them: the reverse-complement buckets \<open>0 .. n - 1\<close>, then the forward ones.
  \<open>scanned_before p q\<close>: slot \<open>p\<close> is visited before \<open>q\<close>. \<open>rank_less s p q\<close>: \<open>p\<close> has
  fewer elements than \<open>q\<close>, or as many and is visited first.
\<close>

definition scan_order :: "nat \<Rightarrow> slot list" where
  "scan_order n = map (Pair False) [0..<n] @ map (Pair True) [0..<n]"

definition scanned_before :: "slot \<Rightarrow> slot \<Rightarrow> bool" where
  "scanned_before p q = ((fst q \<and> \<not> fst p) \<or> (fst p = fst q \<and> snd p < snd q))"

definition rank_less :: "SeedResults \<Rightarrow> slot \<Rightarrow> slot \<Rightarrow> bool" where
  "rank_less s p q =
     (qv_numElts (bucket s p) < qv_numElts (bucket s q) \<or>
      (qv_numElts (bucket s p) = qv_numElts (bucket s q) \<and> scanned_before p q))"

text \<open>
  One step of the scan without the index checks: a slot that passes the test of the
  inner loop replaces the minimum. \<open>push p s\<close> is the state after a round that selected
  slot \<open>p\<close>.
\<close>

definition candidate :: "SeedResults \<Rightarrow> slot \<Rightarrow> bool" where
  "candidate s p =
     (qv_valid (bucket s p) \<and> 0 < qv_numElts (bucket s p) \<and> \<not> slot_sorted s p)"

definition take_better :: "SeedResults \<Rightarrow> minimum \<Rightarrow> slot \<Rightarrow> minimum" where
  "take_better s m p =
     (if candidate s p \<and> qv_numElts (bucket s p) < fst m then (qv_numElts (bucket s p), p)
      else m)"

definition push :: "slot \<Rightarrow> SeedResults \<Rightarrow> SeedResults" where
  "push p s =
     (if fst p then s\<lparr> sortedFw_m := (sortedFw_m s)[snd p := True] \<rparr>
      else s\<lparr> sortedRc_m := (sortedRc_m s)[snd p := True] \<rparr>)
     \<lparr> rankOffs_m := rankOffs_m s @ [snd p], rankFws_m := rankFws_m s @ [fst p] \<rparr>"

text \<open>
  The state in which \<^verbatim>\<open>sort\<close> is called for the first time since \<^verbatim>\<open>reset\<close>: the flags and
  the two rank lists are as \<^verbatim>\<open>reset\<close> left them, \<^verbatim>\<open>nonzTot_\<close> is the number of buckets that
  pass the test of \<^verbatim>\<open>sort\<close>, and \<^verbatim>\<open>numOffs_\<close> fits the \<^verbatim>\<open>uint32_t\<close> loop index. Lemma
  \<open>sort_pre_after_calls\<close> derives it from the calls of \<^verbatim>\<open>reset\<close> and \<^verbatim>\<open>add\<close>.
\<close>

definition sort_pre :: "SeedResults \<Rightarrow> bool" where
  "sort_pre s =
     (numOffs_m s < 2 ^ 32 \<and>
      length (hitsFw_m s) = numOffs_m s \<and> length (hitsRc_m s) = numOffs_m s \<and>
      sortedFw_m s = replicate (numOffs_m s) False \<and>
      sortedRc_m s = replicate (numOffs_m s) False \<and>
      rankOffs_m s = [] \<and> rankFws_m s = [] \<and>
      unat (nonzTot_m s) = length (filter (nonempty_slot s) (scan_order (numOffs_m s))))"

text \<open>
  No bucket to rank has \<open>0xFFFFFFFF\<close> elements, the value that \<^verbatim>\<open>sort\<close> uses for ``nothing
  found'' and that its \<^verbatim>\<open>assert_neq\<close> refuses.
\<close>

definition below_sentinel :: "SeedResults \<Rightarrow> bool" where
  "below_sentinel s =
     list_all (\<lambda>p. nonempty_slot s p \<longrightarrow> qv_numElts (bucket s p) \<noteq> 0xFFFFFFFF)
       (scan_order (numOffs_m s))"

text \<open>
  The invariant of the \<^verbatim>\<open>while\<close> loop: the slots ranked so far are distinct, are exactly
  the flagged ones, are in \<open>rank_less\<close> order, and each of them is \<open>rank_less\<close> than every
  slot still to rank.
\<close>

definition sort_inv :: "SeedResults \<Rightarrow> bool" where
  "sort_inv s =
     (numOffs_m s < 2 ^ 32 \<and>
      length (hitsFw_m s) = numOffs_m s \<and> length (hitsRc_m s) = numOffs_m s \<and>
      length (sortedFw_m s) = numOffs_m s \<and> length (sortedRc_m s) = numOffs_m s \<and>
      length (rankFws_m s) = length (rankOffs_m s) \<and>
      distinct (ranked s) \<and>
      (\<forall>p\<in>set (ranked s). nonempty_slot s p) \<and>
      (\<forall>p. snd p < numOffs_m s \<longrightarrow> slot_sorted s p = (p \<in> set (ranked s))) \<and>
      sorted_wrt (rank_less s) (ranked s) \<and>
      (\<forall>p\<in>set (ranked s). \<forall>q. nonempty_slot s q \<and> q \<notin> set (ranked s) \<longrightarrow> rank_less s p q) \<and>
      unat (nonzTot_m s) = length (filter (nonempty_slot s) (scan_order (numOffs_m s))))"

text \<open>\<open>only_ranks_changed s s'\<close>: \<open>s'\<close> is \<open>s\<close> but for the flags and the two rank lists.\<close>

definition only_ranks_changed :: "SeedResults \<Rightarrow> SeedResults \<Rightarrow> bool" where
  "only_ranks_changed s s' =
     (s'\<lparr> sortedFw_m := sortedFw_m s, sortedRc_m := sortedRc_m s, rankOffs_m := rankOffs_m s,
         rankFws_m := rankFws_m s \<rparr> = s)"

subsection \<open>Concrete values\<close>

text \<open>
  An object whose lists are empty and whose counters are 0, a cache that accepts every
  \<open>QVal\<close>, and a valid \<open>QVal\<close> with \<open>r\<close> ranges and \<open>e\<close> elements (empty when it has no
  range).
\<close>

definition blank :: SeedResults where
  "blank = \<lparr> hitsFw_m = [], hitsRc_m = [], sortedFw_m = [], sortedRc_m = [],
       nonzTot_m = 0, nonzFw_m = 0, nonzRc_m = 0, numRanges_m = 0, numElts_m = 0,
       numRangesFw_m = 0, numEltsFw_m = 0, numRangesRc_m = 0, numEltsRc_m = 0,
       offIdx2off_m = [], rankOffs_m = [], rankFws_m = [], sorted_m = False,
       numOffs_m = 0, read_m = None \<rparr>"

definition any_cache :: AlignmentCache where
  "any_cache = (\<lambda>qv. True)"

definition qval :: "uint32 \<Rightarrow> uint32 \<Rightarrow> QVal" where
  "qval r e = \<lparr> qv_valid = True, qv_empty = (r = 0), qv_numRanges = r, qv_numElts = e \<rparr>"

text \<open>
  The object after \<^verbatim>\<open>reset\<close> with one offset, and with two offsets; and the second after
  three buckets were added: forward 0 (1 range, 5 elements), reverse 0 (2 ranges, 3
  elements), reverse 1 (1 range, 3 elements).
\<close>

definition fresh1 :: SeedResults where
  "fresh1 = blank\<lparr> numOffs_m := 1, hitsFw_m := [QVal_reset], hitsRc_m := [QVal_reset],
       sortedFw_m := [False], sortedRc_m := [False], offIdx2off_m := [0], read_m := Some 1 \<rparr>"

definition fresh2 :: SeedResults where
  "fresh2 = blank\<lparr> numOffs_m := 2, hitsFw_m := [QVal_reset, QVal_reset],
       hitsRc_m := [QVal_reset, QVal_reset], sortedFw_m := [False, False],
       sortedRc_m := [False, False], offIdx2off_m := [0, 10], read_m := Some 1 \<rparr>"

definition filled2 :: SeedResults where
  "filled2 = fresh2\<lparr> hitsFw_m := [qval 1 5, QVal_reset], hitsRc_m := [qval 2 3, qval 1 3],
       nonzTot_m := 3, nonzFw_m := 1, nonzRc_m := 2, numRanges_m := 4, numElts_m := 11,
       numRangesFw_m := 1, numEltsFw_m := 5, numRangesRc_m := 3, numEltsRc_m := 6 \<rparr>"

text \<open>
  \<open>filled2\<close> after \<^verbatim>\<open>sort\<close>; that object after a fourth bucket was added (forward 1, 1
  range, 1 element); and the latter after a second \<^verbatim>\<open>sort\<close>.
\<close>

definition sorted2 :: SeedResults where
  "sorted2 = filled2\<lparr> sortedFw_m := [True, False], sortedRc_m := [True, True],
       rankOffs_m := [0, 1, 0], rankFws_m := [False, False, True], sorted_m := True \<rparr>"

definition refilled2 :: SeedResults where
  "refilled2 = sorted2\<lparr> hitsFw_m := [qval 1 5, qval 1 1],
       nonzTot_m := 4, nonzFw_m := 2, numRanges_m := 5, numElts_m := 12,
       numRangesFw_m := 2, numEltsFw_m := 6 \<rparr>"

definition resorted2 :: SeedResults where
  "resorted2 = refilled2\<lparr> sortedFw_m := [True, True], rankOffs_m := [0, 1, 0, 1],
       rankFws_m := [False, False, True, True] \<rparr>"

text \<open>
  An object with one offset whose forward and reverse-complement buckets both hold 4
  elements, and that object after \<^verbatim>\<open>sort\<close>.
\<close>

definition tied1 :: SeedResults where
  "tied1 = fresh1\<lparr> hitsFw_m := [qval 1 4], hitsRc_m := [qval 1 4],
       nonzTot_m := 2, nonzFw_m := 1, nonzRc_m := 1, numRanges_m := 2, numElts_m := 8,
       numRangesFw_m := 1, numEltsFw_m := 4, numRangesRc_m := 1, numEltsRc_m := 4 \<rparr>"

definition tied1_sorted :: SeedResults where
  "tied1_sorted = tied1\<lparr> sortedFw_m := [True], sortedRc_m := [True],
       rankOffs_m := [0, 0], rankFws_m := [False, True], sorted_m := True \<rparr>"

text \<open>
  An object with two offsets in which forward bucket 1 was added (4 elements), \<^verbatim>\<open>sort\<close>
  was called, forward bucket 0 was added (4 elements) and \<^verbatim>\<open>sort\<close> was called again: the
  four states.
\<close>

definition late1 :: SeedResults where
  "late1 = fresh2\<lparr> hitsFw_m := [QVal_reset, qval 1 4],
       nonzTot_m := 1, nonzFw_m := 1, numRanges_m := 1, numElts_m := 4,
       numRangesFw_m := 1, numEltsFw_m := 4 \<rparr>"

definition late1_sorted :: SeedResults where
  "late1_sorted = late1\<lparr> sortedFw_m := [False, True], rankOffs_m := [1], rankFws_m := [True],
       sorted_m := True \<rparr>"

definition late2 :: SeedResults where
  "late2 = late1_sorted\<lparr> hitsFw_m := [qval 1 4, qval 1 4],
       nonzTot_m := 2, nonzFw_m := 2, numRanges_m := 2, numElts_m := 8,
       numRangesFw_m := 2, numEltsFw_m := 8 \<rparr>"

definition late2_sorted :: SeedResults where
  "late2_sorted = late2\<lparr> sortedFw_m := [True, True], rankOffs_m := [1, 0],
       rankFws_m := [True, True] \<rparr>"

section \<open>Signed arithmetic without wrap-around\<close>

lemma sint_decrement:
  fixes x :: cint
  assumes "0 <s x"
  shows "sint (x - 1) = sint x - 1"
proof -
  have "sint (x - 1) = signed_take_bit 31 (sint x - 1)"
    by (simp add: sint_word_ariths)
  also have "\<dots> = sint x - 1"
    using assms sint_lt [of x] sint_ge [of x]
    by (intro signed_take_bit_int_eq_self) (simp_all add: word_sless_alt)
  finally show ?thesis .
qed

lemma sint_subtract:
  fixes p m :: cint
  assumes "0 \<le>s m" and "m \<le>s p"
  shows "sint (p - m) = sint p - sint m"
proof -
  have "sint (p - m) = signed_take_bit 31 (sint p - sint m)"
    by (simp add: sint_word_ariths)
  also have "\<dots> = sint p - sint m"
    using assms sint_lt [of p] sint_ge [of p] sint_lt [of m] sint_ge [of m]
    by (intro signed_take_bit_int_eq_self) (simp_all add: word_sle_eq)
  finally show ?thesis .
qed

lemma decrement_nonneg:
  fixes x :: cint
  shows "0 <s x \<Longrightarrow> 0 \<le>s x - 1"
  using sint_decrement [of x] by (simp add: word_sle_eq word_sless_alt)

lemma subtract_nonneg:
  fixes p m :: cint
  shows "0 \<le>s m \<Longrightarrow> m \<le>s p \<Longrightarrow> 0 \<le>s p - m"
  using sint_subtract [of m p] by (simp add: word_sle_eq)

lemma positive_nonzero:
  fixes x :: cint
  shows "0 <s x \<Longrightarrow> x \<noteq> 0"
  by (auto simp: word_sless_alt)

lemma nonneg_cases:
  fixes x :: cint
  shows "0 \<le>s x \<Longrightarrow> x = 0 \<or> 0 <s x"
  by (auto simp: word_sle_eq word_sless_alt signed_eq_0_iff)

section \<open>Constraint: the charges\<close>

text \<open>
  The sibling of the pair examined in C1: \<^verbatim>\<open>canDelete(ex, cm)\<close> asks for \<^verbatim>\<open>dels > 0\<close> and
  \<^verbatim>\<open>edits > 0\<close>, and then none of the assertions of \<^verbatim>\<open>chargeDelete\<close> fails (for a
  non-negative penalty).
\<close>

lemma chargeDelete_after_canDelete:
  assumes "canDelete ex cm c = Inr True" and "0 \<le>s pen_del cm ex"
  shows "chargeDelete ex cm c = Inr (chargeDelete_upd ex cm c)"
proof -
  from assms(1) have i: "instantiated c" and d: "0 <s dels c" and e: "0 <s edits c"
    and p: "pen_del cm ex \<le>s penalty c"
    by (auto simp: canDelete_def split: if_splits)
  have "0 \<le>s dels c - 1" "0 \<le>s edits c - 1" "0 \<le>s penalty c - pen_del cm ex"
    using d e p assms(2) by (simp_all add: decrement_nonneg subtract_nonneg)
  with i show ?thesis
    by (simp add: chargeDelete_def chargeDelete_upd_def)
qed

text \<open>
  C1 (the code departs from the claim). The claim: whenever \<^verbatim>\<open>canInsert(ex, pens)\<close> is true,
  \<^verbatim>\<open>chargeInsert(ex, pens)\<close> leaves \<^verbatim>\<open>ins\<close>, \<^verbatim>\<open>edits\<close> and \<^verbatim>\<open>penalty\<close> at 0 or above. The code
  at the instantiated constraint with \<^verbatim>\<open>ins = 0\<close>, \<^verbatim>\<open>edits = 1\<close>, \<^verbatim>\<open>penalty = 10\<close> and an
  insertion penalty of 0: \<^verbatim>\<open>canInsert\<close> returns true, since it asks for \<^verbatim>\<open>ins > 0\<close> or
  \<^verbatim>\<open>edits > 0\<close>; the assignments of \<^verbatim>\<open>chargeInsert\<close> leave \<^verbatim>\<open>ins = -1\<close>; and its own
  \<^verbatim>\<open>assert_geq(ins, 0)\<close> fails.
\<close>

theorem chargeInsert_after_canInsert_negative:
  "canInsert 0 pens0 cons_noins = Inr True \<and>
   sint (ins (chargeInsert_upd 0 pens0 cons_noins)) = -1 \<and>
   sint (edits (chargeInsert_upd 0 pens0 cons_noins)) = 0 \<and>
   sint (penalty (chargeInsert_upd 0 pens0 cons_noins)) = 10 \<and>
   chargeInsert 0 pens0 cons_noins = Inl AssertionFailed"
  by (simp add: canInsert_def chargeInsert_def chargeInsert_upd_def pens0_def cons_noins_def
      init_def word_sle_eq word_sless_alt)

text \<open>
  C4 as stated fails for a constraint with a negative budget, and for a negative penalty.
  With \<^verbatim>\<open>mms = -1\<close> and \<^verbatim>\<open>edits = 5\<close>, \<^verbatim>\<open>canMismatch\<close> returns true (\<^verbatim>\<open>edits > 0\<close>) and
  \<^verbatim>\<open>chargeMismatch\<close> decrements \<^verbatim>\<open>mms\<close>, not \<^verbatim>\<open>edits\<close>: it tests \<^verbatim>\<open>mms == 0\<close>, not
  \<^verbatim>\<open>mms > 0\<close>. \<^verbatim>\<open>mms\<close> becomes \<open>- 2\<close> and \<^verbatim>\<open>assert_geq(mms, 0)\<close> fails. With \<^verbatim>\<open>mms = 1\<close> and
  \<^verbatim>\<open>edits = -1\<close>, \<^verbatim>\<open>canMismatch\<close> returns true and \<^verbatim>\<open>chargeMismatch\<close> leaves \<^verbatim>\<open>edits\<close> at
  \<open>- 1\<close>. With a mismatch penalty of \<open>- 1\<close> and \<^verbatim>\<open>penalty = INT_MAX\<close>, \<^verbatim>\<open>canMismatch\<close> returns
  true and the difference \<^verbatim>\<open>penalty - mm(q)\<close> is \<open>2 ^ 31\<close>, which no \<^verbatim>\<open>int\<close> holds (the
  subtraction overflows; with wrap-around \<^verbatim>\<open>penalty\<close> becomes \<^verbatim>\<open>INT_MIN\<close>).
\<close>

theorem chargeMismatch_negative_budget:
  "instantiated cons_negmms \<and> sint (mms cons_negmms) = - 1 \<and> sint (edits cons_negmms) = 5 \<and>
   canMismatch 7 pens0 cons_negmms = Inr True \<and>
   sint (mms (chargeMismatch_upd 7 pens0 cons_negmms)) = - 2 \<and>
   sint (edits (chargeMismatch_upd 7 pens0 cons_negmms)) = 5 \<and>
   chargeMismatch 7 pens0 cons_negmms = Inl AssertionFailed \<and>
   instantiated cons_negedits \<and> sint (mms cons_negedits) = 1 \<and>
   sint (edits cons_negedits) = - 1 \<and>
   canMismatch 7 pens0 cons_negedits = Inr True \<and>
   sint (mms (chargeMismatch_upd 7 pens0 cons_negedits)) = 0 \<and>
   sint (edits (chargeMismatch_upd 7 pens0 cons_negedits)) = - 1 \<and>
   chargeMismatch 7 pens0 cons_negedits = Inl AssertionFailed \<and>
   instantiated cons_max \<and> sint (mms cons_max) = 2147483647 \<and>
   sint (edits cons_max) = 2147483647 \<and> sint (pen_mm pens_neg 7) = - 1 \<and>
   canMismatch 7 pens_neg cons_max = Inr True \<and>
   sint (penalty cons_max) - sint (pen_mm pens_neg 7) = 2147483648 \<and>
   sint (penalty (chargeMismatch_upd 7 pens_neg cons_max)) = - 2147483648 \<and>
   chargeMismatch 7 pens_neg cons_max = Inl AssertionFailed"
  by (simp add: canMismatch_def chargeMismatch_def chargeMismatch_upd_def pens0_def pens_neg_def
      cons_negmms_def cons_negedits_def cons_max_def init_def word_sle_eq word_sless_alt)

text \<open>
  C4, amended. For an instantiated constraint, \<^verbatim>\<open>canMismatch(q, pens)\<close> is true iff
  (\<^verbatim>\<open>mms > 0\<close> or \<^verbatim>\<open>edits > 0\<close>) and \<^verbatim>\<open>penalty >= pens.mm(q)\<close>. When it is true and
  \<^verbatim>\<open>mms >= 0\<close>, \<^verbatim>\<open>edits >= 0\<close> and \<^verbatim>\<open>pens.mm(q) >= 0\<close>, \<^verbatim>\<open>chargeMismatch(q, pens)\<close> passes
  all its assertions, decrements \<^verbatim>\<open>mms\<close> if \<^verbatim>\<open>mms > 0\<close> and \<^verbatim>\<open>edits\<close> otherwise, subtracts
  \<^verbatim>\<open>pens.mm(q)\<close> from \<^verbatim>\<open>penalty\<close>, leaves the three at 0 or above and every other field as
  it was.
\<close>

theorem canMismatch_chargeMismatch:
  assumes "instantiated c"
  shows "canMismatch q cm c = Inr ((0 <s mms c \<or> 0 <s edits c) \<and> pen_mm cm q \<le>s penalty c) \<and>
    (canMismatch q cm c = Inr True \<and> 0 \<le>s mms c \<and> 0 \<le>s edits c \<and> 0 \<le>s pen_mm cm q \<longrightarrow>
      (\<exists>c'. chargeMismatch q cm c = Inr c' \<and>
        c' = (if 0 <s mms c then c\<lparr>mms := mms c - 1\<rparr> else c\<lparr>edits := edits c - 1\<rparr>)
               \<lparr>penalty := penalty c - pen_mm cm q\<rparr> \<and>
        sint (mms c') = (if 0 <s mms c then sint (mms c) - 1 else sint (mms c)) \<and>
        sint (edits c') = (if 0 <s mms c then sint (edits c) else sint (edits c) - 1) \<and>
        sint (penalty c') = sint (penalty c) - sint (pen_mm cm q) \<and>
        0 \<le>s mms c' \<and> 0 \<le>s edits c' \<and> 0 \<le>s penalty c'))"
proof (intro conjI impI)
  show "canMismatch q cm c = Inr ((0 <s mms c \<or> 0 <s edits c) \<and> pen_mm cm q \<le>s penalty c)"
    using assms by (simp add: canMismatch_def)
next
  assume a: "canMismatch q cm c = Inr True \<and> 0 \<le>s mms c \<and> 0 \<le>s edits c \<and> 0 \<le>s pen_mm cm q"
  then have budget: "0 <s mms c \<or> 0 <s edits c" and pen: "pen_mm cm q \<le>s penalty c"
    using assms by (auto simp: canMismatch_def)
  from a have m0: "0 \<le>s mms c" and e0: "0 \<le>s edits c" and p0: "0 \<le>s pen_mm cm q"
    by simp_all
  have pen': "0 \<le>s penalty c - pen_mm cm q"
    using p0 pen by (rule subtract_nonneg)
  have spen: "sint (penalty c - pen_mm cm q) = sint (penalty c) - sint (pen_mm cm q)"
    using p0 pen by (rule sint_subtract)
  show "\<exists>c'. chargeMismatch q cm c = Inr c' \<and>
        c' = (if 0 <s mms c then c\<lparr>mms := mms c - 1\<rparr> else c\<lparr>edits := edits c - 1\<rparr>)
               \<lparr>penalty := penalty c - pen_mm cm q\<rparr> \<and>
        sint (mms c') = (if 0 <s mms c then sint (mms c) - 1 else sint (mms c)) \<and>
        sint (edits c') = (if 0 <s mms c then sint (edits c) else sint (edits c) - 1) \<and>
        sint (penalty c') = sint (penalty c) - sint (pen_mm cm q) \<and>
        0 \<le>s mms c' \<and> 0 \<le>s edits c' \<and> 0 \<le>s penalty c'"
  proof (cases "0 <s mms c")
    case True
    then have nz: "mms c \<noteq> 0" by (rule positive_nonzero)
    have m': "0 \<le>s mms c - 1" using True by (rule decrement_nonneg)
    have sm: "sint (mms c - 1) = sint (mms c) - 1" using True by (rule sint_decrement)
    show ?thesis
      using True nz m' sm pen' spen assms e0
      by (simp add: chargeMismatch_def chargeMismatch_upd_def)
  next
    case False
    with m0 have z: "mms c = 0" using nonneg_cases by blast
    with budget have e: "0 <s edits c" by simp
    have e': "0 \<le>s edits c - 1" using e by (rule decrement_nonneg)
    have se: "sint (edits c - 1) = sint (edits c) - 1" using e by (rule sint_decrement)
    show ?thesis
      using False z e e' se pen' spen assms
      by (simp add: chargeMismatch_def chargeMismatch_upd_def)
  qed
qed

theorem canMismatch_chargeMismatch_witness:
  "instantiated cons_1mm \<and> 0 \<le>s mms cons_1mm \<and> 0 \<le>s edits cons_1mm \<and> 0 \<le>s pen_mm pens0 7 \<and>
   canMismatch 7 pens0 cons_1mm = Inr True \<and>
   chargeMismatch 7 pens0 cons_1mm = Inr (cons_1mm\<lparr>mms := 0, penalty := 0\<rparr>)"
proof -
  have i: "instantiated cons_1mm" by (simp add: cons_1mm_def)
  have h: "0 \<le>s mms cons_1mm" "0 \<le>s edits cons_1mm" "0 \<le>s pen_mm pens0 7"
    by (simp_all add: cons_1mm_def pens0_def init_def word_sle_eq)
  have can: "canMismatch 7 pens0 cons_1mm = Inr True"
    by (simp add: canMismatch_def cons_1mm_def pens0_def init_def word_sle_eq word_sless_alt)
  from canMismatch_chargeMismatch [OF i, of 7 pens0] can h
  have "chargeMismatch 7 pens0 cons_1mm =
      Inr ((if 0 <s mms cons_1mm then cons_1mm\<lparr>mms := mms cons_1mm - 1\<rparr>
            else cons_1mm\<lparr>edits := edits cons_1mm - 1\<rparr>)
             \<lparr>penalty := penalty cons_1mm - pen_mm pens0 7\<rparr>)"
    by blast
  then have "chargeMismatch 7 pens0 cons_1mm = Inr (cons_1mm\<lparr>mms := 0, penalty := 0\<rparr>)"
    by (simp add: cons_1mm_def pens0_def init_def word_sless_alt)
  with i h can show ?thesis by simp
qed

section \<open>Constraint: instantiate\<close>

text \<open>Evaluation of \<open>bit_length\<close>, and the definitions that a concrete call unfolds.\<close>

lemma bit_length_zero: "bit_length 0 = 0"
  by (simp add: bit_length.simps)

lemma bit_length_pos: "0 < n \<Longrightarrow> bit_length n = Suc (bit_length (n div 2))"
  by (subst bit_length.simps) simp

lemmas float_eval = instantiate_def instantiate_static_def int_of_float_def trunc_int_def
  float_of_bits_def float_of_size_t_def round32_def round_shift_def bit_length_zero bit_length_pos
  Let_def exact_penalty_def

text \<open>
  The model at some values: the patterns of \<^verbatim>\<open>0.5f\<close>, \<^verbatim>\<open>-3.75f\<close>, the smallest positive
  \<^verbatim>\<open>float\<close>, \<^verbatim>\<open>FLT_MAX\<close> and infinity; \<open>2 ^ 24 + 1\<close>, which is not a \<^verbatim>\<open>float\<close> and becomes
  \<open>2 ^ 24\<close>; \<^verbatim>\<open>FLT_MAX + FLT_MAX\<close>, which is infinity; and the static \<^verbatim>\<open>instantiate\<close> at
  \<^verbatim>\<open>penConst = 3.0f\<close>, \<^verbatim>\<open>penLinear = 2.0f\<close>, \<^verbatim>\<open>rdlen = 100\<close> (203.5 becomes 203), at
  \<^verbatim>\<open>penConst = 0.0f\<close>, \<^verbatim>\<open>penLinear = 1.0f\<close>, \<^verbatim>\<open>rdlen = 16777217\<close>, and at an infinite
  \<^verbatim>\<open>penConst\<close>.
\<close>

lemma float_of_bits_values:
  "float_of_bits 0x3F000000 = FNum 8388608 (- 24)"
  "float_of_bits 0xC0700000 = FNum (- 15728640) (- 22)"
  "float_of_bits 0x00000001 = FNum 1 (- 149)"
  "float_of_bits 0x7F7FFFFF = FNum 16777215 104"
  "float_of_bits 0x7F800000 = FInf False"
  by (simp_all add: float_of_bits_def)

lemma round32_values:
  "float_of_size_t 16777217 = FNum 8388608 1"
  "fadd (float_of_bits 0x7F7FFFFF) (float_of_bits 0x7F7FFFFF) = FInf False"
  by (simp_all add: float_eval)

lemma instantiate_static_values:
  "instantiate_static 100 0x40400000 0x40000000 = Inr 203"
  "instantiate_static 16777217 0 0x3F800000 = Inr 16777216"
  "instantiate_static 1 0x7F800000 0 = Inl UndefinedBehaviour"
  by (simp_all add: float_eval)

text \<open>
  The conversion to \<^verbatim>\<open>int\<close> drops the fraction: the result has the sign of the number and
  the largest absolute value that is not above the absolute value of the number.
\<close>

lemma trunc_int_sign: "(0 \<le> m \<longrightarrow> 0 \<le> trunc_int m k) \<and> (m \<le> 0 \<longrightarrow> trunc_int m k \<le> 0)"
  by (auto simp: trunc_int_def sgn_if pos_imp_zdiv_nonneg_iff mult_le_0_iff zero_le_mult_iff)

lemma trunc_int_integer: "0 \<le> k \<Longrightarrow> trunc_int m k = m * 2 ^ nat k"
  by (simp add: trunc_int_def)

lemma trunc_int_fraction:
  assumes "k < 0"
  shows "\<bar>trunc_int m k\<bar> * 2 ^ nat (- k) \<le> \<bar>m\<bar>" and "\<bar>m\<bar> < (\<bar>trunc_int m k\<bar> + 1) * 2 ^ nat (- k)"
proof -
  define d :: int where "d = 2 ^ nat (- k)"
  define x where "x = \<bar>m\<bar> div d"
  have d: "0 < d" by (simp add: d_def)
  have t: "\<bar>trunc_int m k\<bar> = x"
    using assms
    by (cases "m = 0")
      (simp_all add: trunc_int_def abs_mult abs_sgn_eq pos_imp_zdiv_nonneg_iff x_def d_def)
  have e: "x * d + \<bar>m\<bar> mod d = \<bar>m\<bar>"
    unfolding x_def by (rule div_mult_mod_eq)
  have b: "0 \<le> \<bar>m\<bar> mod d" "\<bar>m\<bar> mod d < d" using d by simp_all
  have "(x + 1) * d = x * d + d" by (simp add: algebra_simps)
  with e b have "x * d \<le> \<bar>m\<bar>" "\<bar>m\<bar> < (x + 1) * d"
    by linarith+
  then show "\<bar>trunc_int m k\<bar> * 2 ^ nat (- k) \<le> \<bar>m\<bar>" and "\<bar>m\<bar> < (\<bar>trunc_int m k\<bar> + 1) * 2 ^ nat (- k)"
    by (simp_all only: t d_def)
qed

lemma sint_word_of_int_int:
  assumes "- (2 ^ 31) \<le> t" and "t < 2 ^ 31"
  shows "sint (word_of_int t :: cint) = t"
  using assms by (simp add: sint_word_ariths signed_take_bit_int_eq_self sint_sbintrunc')

lemma int_of_float_Inr:
  assumes "int_of_float x = Inr v"
  shows "\<exists>m k. x = FNum m k \<and> sint v = trunc_int m k"
  using assms
  by (cases x) (auto simp: int_of_float_def sint_word_of_int_int split: if_splits)

text \<open>
  C6 as stated fails. The code adds \<^verbatim>\<open>0.5f\<close> and converts to \<^verbatim>\<open>int\<close>, which drops the
  fraction; every operation is rounded to single precision. With \<^verbatim>\<open>penConst = -3.75f\<close>,
  \<^verbatim>\<open>penLinear = 1.0f\<close> and \<^verbatim>\<open>rdlen = 1\<close>, the number \<^verbatim>\<open>penConst + penLinear * rdlen\<close> is
  \<open>- 2.75\<close> (that is \<open>- 23068672 / 2 ^ 23\<close>), which rounds to \<open>- 3\<close>; the code computes
  \<^verbatim>\<open>0.5f + -3.75f = -3.25f\<close>, adds \<^verbatim>\<open>1.0f\<close> and converts \<^verbatim>\<open>-2.25f\<close> to \<open>- 2\<close>. With
  \<^verbatim>\<open>penConst = 0.49999997f\<close>, \<^verbatim>\<open>penLinear = 1.0f\<close> and \<^verbatim>\<open>rdlen = 1\<close>, the number is
  \<open>50331647 / 2 ^ 25\<close>, just below \<open>1.5\<close>, which rounds to 1; the code computes
  \<^verbatim>\<open>0.5f + 0.49999997f\<close>, which is \<^verbatim>\<open>1.0f\<close> in single precision, adds \<^verbatim>\<open>1.0f\<close> and converts
  \<^verbatim>\<open>2.0f\<close> to 2.
\<close>

theorem instantiate_not_round:
  "\<not> instantiated cons_neg \<and> penConst cons_neg \<noteq> 0x7F7FFFFF \<and>
   instantiate 1 cons_neg = Inr (cons_neg\<lparr> penalty := - 2, instantiated := True \<rparr>) \<and>
   sint (- 2 :: cint) = - 2 \<and>
   exact_penalty 1 (penConst cons_neg) (penLinear cons_neg) = Some (- 23068672, - 23) \<and>
   rounds_to (- 23068672, - 23) (- 3) \<and> \<not> rounds_to (- 23068672, - 23) (- 2) \<and>
   \<not> instantiated cons_half \<and> penConst cons_half \<noteq> 0x7F7FFFFF \<and>
   instantiate 1 cons_half = Inr (cons_half\<lparr> penalty := 2, instantiated := True \<rparr>) \<and>
   exact_penalty 1 (penConst cons_half) (penLinear cons_half) = Some (50331647, - 25) \<and>
   rounds_to (50331647, - 25) 1 \<and> \<not> rounds_to (50331647, - 25) 2"
  by (simp add: float_eval cons_neg_def cons_half_def init_def)

text \<open>
  C6, amended. For a constraint that is not instantiated and every \<^verbatim>\<open>rdlen\<close>,
  \<^verbatim>\<open>instantiate(rdlen)\<close> sets \<^verbatim>\<open>penalty\<close> to \<^verbatim>\<open>(int)(0.5f + penConst + penLinear * (float)rdlen)\<close>,
  the single-precision sum with its fraction dropped, if and only if \<^verbatim>\<open>penConst\<close> is not
  \<^verbatim>\<open>FLT_MAX\<close> (the call is undefined when no \<^verbatim>\<open>int\<close> holds that value); it leaves \<^verbatim>\<open>penalty\<close>
  unchanged otherwise; it sets \<^verbatim>\<open>instantiated\<close> and changes no other field; and the value
  assigned is \<open>instantiate_static rdlen (penConst c) (penLinear c)\<close>, a function of the two
  coefficients and \<^verbatim>\<open>rdlen\<close> alone.
\<close>

theorem instantiate_truncates:
  assumes "\<not> instantiated c"
  shows "(penConst c = 0x7F7FFFFF \<longrightarrow> instantiate rdlen c = Inr (c\<lparr> instantiated := True \<rparr>)) \<and>
    (penConst c \<noteq> 0x7F7FFFFF \<longrightarrow>
       (\<forall>e. instantiate_static rdlen (penConst c) (penLinear c) = Inl e \<longrightarrow>
            instantiate rdlen c = Inl UndefinedBehaviour) \<and>
       (\<forall>v. instantiate_static rdlen (penConst c) (penLinear c) = Inr v \<longrightarrow>
            instantiate rdlen c = Inr (c\<lparr> penalty := v, instantiated := True \<rparr>) \<and>
            (\<exists>m k. fadd (fadd (float_of_bits 0x3F000000) (float_of_bits (penConst c)))
                      (fmul (float_of_bits (penLinear c)) (float_of_size_t rdlen)) = FNum m k \<and>
               sint v = trunc_int m k \<and>
               (0 \<le> m \<longrightarrow> 0 \<le> sint v) \<and> (m \<le> 0 \<longrightarrow> sint v \<le> 0) \<and>
               (0 \<le> k \<longrightarrow> sint v = m * 2 ^ nat k) \<and>
               (k < 0 \<longrightarrow> \<bar>sint v\<bar> * 2 ^ nat (- k) \<le> \<bar>m\<bar> \<and>
                          \<bar>m\<bar> < (\<bar>sint v\<bar> + 1) * 2 ^ nat (- k)))))"
proof (intro conjI impI allI)
  show "instantiate rdlen c = Inr (c\<lparr> instantiated := True \<rparr>)" if "penConst c = 0x7F7FFFFF"
    using assms that by (simp add: instantiate_def)
next
  fix e
  assume "penConst c \<noteq> 0x7F7FFFFF" and e: "instantiate_static rdlen (penConst c) (penLinear c) = Inl e"
  from e have "e = UndefinedBehaviour"
    by (auto simp: instantiate_static_def int_of_float_def split: fval.splits if_splits)
  with assms \<open>penConst c \<noteq> 0x7F7FFFFF\<close> e show "instantiate rdlen c = Inl UndefinedBehaviour"
    by (simp add: instantiate_def)
next
  fix v
  assume g: "penConst c \<noteq> 0x7F7FFFFF" and v: "instantiate_static rdlen (penConst c) (penLinear c) = Inr v"
  show "instantiate rdlen c = Inr (c\<lparr> penalty := v, instantiated := True \<rparr>)"
    using assms g v by (simp add: instantiate_def)
  from int_of_float_Inr [OF v [unfolded instantiate_static_def]] obtain m k where x: "fadd (fadd (float_of_bits 0x3F000000) (float_of_bits (penConst c)))
        (fmul (float_of_bits (penLinear c)) (float_of_size_t rdlen)) = FNum m k"
      and t: "sint v = trunc_int m k"
    by blast
  show "\<exists>m k. fadd (fadd (float_of_bits 0x3F000000) (float_of_bits (penConst c)))
                      (fmul (float_of_bits (penLinear c)) (float_of_size_t rdlen)) = FNum m k \<and>
               sint v = trunc_int m k \<and>
               (0 \<le> m \<longrightarrow> 0 \<le> sint v) \<and> (m \<le> 0 \<longrightarrow> sint v \<le> 0) \<and>
               (0 \<le> k \<longrightarrow> sint v = m * 2 ^ nat k) \<and>
               (k < 0 \<longrightarrow> \<bar>sint v\<bar> * 2 ^ nat (- k) \<le> \<bar>m\<bar> \<and>
                          \<bar>m\<bar> < (\<bar>sint v\<bar> + 1) * 2 ^ nat (- k))"
    using x t trunc_int_sign [of m k] trunc_int_integer [of k m] trunc_int_fraction [of k m]
    by (intro exI [of _ m] exI [of _ k]) simp
qed

theorem instantiate_truncates_witness:
  "\<not> instantiated cons_neg \<and> penConst cons_neg \<noteq> 0x7F7FFFFF \<and>
   instantiate_static 1 (penConst cons_neg) (penLinear cons_neg) = Inr (- 2) \<and>
   instantiate 1 cons_neg = Inr (cons_neg\<lparr> penalty := - 2, instantiated := True \<rparr>) \<and>
   \<not> instantiated init \<and> penConst init = 0x7F7FFFFF \<and>
   instantiate 1 init = Inr (init\<lparr> instantiated := True \<rparr>)"
proof -
  have n: "\<not> instantiated cons_neg" "penConst cons_neg \<noteq> 0x7F7FFFFF"
    by (simp_all add: cons_neg_def init_def)
  have v: "instantiate_static 1 (penConst cons_neg) (penLinear cons_neg) = Inr (- 2)"
    by (simp add: float_eval cons_neg_def init_def)
  have i: "\<not> instantiated init" "penConst init = 0x7F7FFFFF"
    by (simp_all add: init_def)
  from instantiate_truncates [OF n(1), of 1] n(2) v
  have a: "instantiate 1 cons_neg = Inr (cons_neg\<lparr> penalty := - 2, instantiated := True \<rparr>)"
    by blast
  from instantiate_truncates [OF i(1), of 1] i(2)
  have b: "instantiate 1 init = Inr (init\<lparr> instantiated := True \<rparr>)"
    by blast
  from n v a i b show ?thesis by (intro conjI)
qed

section \<open>Seed::mmSeeds\<close>

text \<open>
  C5. \<^verbatim>\<open>mmSeeds(mms, ln, pols, oall)\<close> is the zero-, one- or two-mismatch builder when
  \<^verbatim>\<open>mms\<close> is 0, 1 or 2, and for every other \<^verbatim>\<open>mms\<close> it throws and returns nothing. With
  the three marking builders the call leaves the first, second or third mark exactly
  when \<^verbatim>\<open>mms\<close> is 0, 1 or 2.
\<close>

theorem mmSeeds_dispatch:
  "(nmms = 0 \<longrightarrow> mmSeeds z1 z2 z3 nmms ln st = z1 ln st) \<and>
   (nmms = 1 \<longrightarrow> mmSeeds z1 z2 z3 nmms ln st = z2 ln st) \<and>
   (nmms = 2 \<longrightarrow> mmSeeds z1 z2 z3 nmms ln st = z3 ln st) \<and>
   (nmms \<noteq> 0 \<and> nmms \<noteq> 1 \<and> nmms \<noteq> 2 \<longrightarrow> mmSeeds z1 z2 z3 nmms ln st = Inl (Thrown 1)) \<and>
   (marked (mmSeeds (mark 1) (mark 2) (mark 3) nmms ln st) = Some 1 \<longleftrightarrow> nmms = 0) \<and>
   (marked (mmSeeds (mark 1) (mark 2) (mark 3) nmms ln st) = Some 2 \<longleftrightarrow> nmms = 1) \<and>
   (marked (mmSeeds (mark 1) (mark 2) (mark 3) nmms ln st) = Some 3 \<longleftrightarrow> nmms = 2) \<and>
   (marked (mmSeeds (mark 1) (mark 2) (mark 3) nmms ln st) = None \<longleftrightarrow>
      nmms \<noteq> 0 \<and> nmms \<noteq> 1 \<and> nmms \<noteq> 2)"
  by (simp add: mmSeeds_def mark_def marked_def)

theorem mmSeeds_dispatch_witness:
  "mmSeeds (mark 1) (mark 2) (mark 3) 0 20 ([], init) = mark 1 20 ([], init) \<and>
   mmSeeds (mark 1) (mark 2) (mark 3) 1 20 ([], init) = mark 2 20 ([], init) \<and>
   mmSeeds (mark 1) (mark 2) (mark 3) 2 20 ([], init) = mark 3 20 ([], init) \<and>
   mmSeeds (mark 1) (mark 2) (mark 3) 3 20 ([], init) = Inl (Thrown 1) \<and>
   mmSeeds (mark 1) (mark 2) (mark 3) (-1) 20 ([], init) = Inl (Thrown 1)"
  using mmSeeds_dispatch [where nmms = 0 and ln = 20 and st = "([], init)"]
    mmSeeds_dispatch [where nmms = 1 and ln = 20 and st = "([], init)"]
    mmSeeds_dispatch [where nmms = 2 and ln = 20 and st = "([], init)"]
    mmSeeds_dispatch [where nmms = 3 and ln = 20 and st = "([], init)"]
    mmSeeds_dispatch [where nmms = "-1" and ln = 20 and st = "([], init)"]
  by simp

section \<open>SeedSearchMetrics::merge\<close>

text \<open>
  C8. \<^verbatim>\<open>merge(m)\<close> sets each of the eight counters to its previous value plus the counter
  of \<^verbatim>\<open>m\<close> (the sum of \<^verbatim>\<open>uint64_t\<close>, modulo \<open>2 ^ 64\<close>, all other content untouched); merging
  into an object that was just \<^verbatim>\<open>reset()\<close> gives the counters of \<^verbatim>\<open>m\<close>; and merging is
  commutative and associative.
\<close>

theorem SeedSearchMetrics_merge_sums:
  "SeedSearchMetrics_merge m g this =
     this\<lparr> seedsearch := seedsearch this + seedsearch m,
           possearch := possearch this + possearch m,
           intrahit := intrahit this + intrahit m,
           interhit := interhit this + interhit m,
           filteredseed := filteredseed this + filteredseed m,
           ooms := ooms this + ooms m,
           bwops := bwops this + bwops m,
           bweds := bweds this + bweds m \<rparr> \<and>
   unat (seedsearch (SeedSearchMetrics_merge m g this)) = (unat (seedsearch this) + unat (seedsearch m)) mod 2 ^ 64 \<and>
   unat (possearch (SeedSearchMetrics_merge m g this)) = (unat (possearch this) + unat (possearch m)) mod 2 ^ 64 \<and>
   unat (intrahit (SeedSearchMetrics_merge m g this)) = (unat (intrahit this) + unat (intrahit m)) mod 2 ^ 64 \<and>
   unat (interhit (SeedSearchMetrics_merge m g this)) = (unat (interhit this) + unat (interhit m)) mod 2 ^ 64 \<and>
   unat (filteredseed (SeedSearchMetrics_merge m g this)) = (unat (filteredseed this) + unat (filteredseed m)) mod 2 ^ 64 \<and>
   unat (ooms (SeedSearchMetrics_merge m g this)) = (unat (ooms this) + unat (ooms m)) mod 2 ^ 64 \<and>
   unat (bwops (SeedSearchMetrics_merge m g this)) = (unat (bwops this) + unat (bwops m)) mod 2 ^ 64 \<and>
   unat (bweds (SeedSearchMetrics_merge m g this)) = (unat (bweds this) + unat (bweds m)) mod 2 ^ 64 \<and>
   SeedSearchMetrics_merge m g (SeedSearchMetrics_reset this) = m \<and>
   SeedSearchMetrics_merge a g1 b = SeedSearchMetrics_merge b g2 a \<and>
   SeedSearchMetrics_merge c g1 (SeedSearchMetrics_merge b g2 a) =
     SeedSearchMetrics_merge (SeedSearchMetrics_merge c g3 b) g4 a"
proof (intro conjI)
  show "SeedSearchMetrics_merge m g (SeedSearchMetrics_reset this) = m"
    by (simp add: SeedSearchMetrics_merge_def SeedSearchMetrics_reset_def)
  show "SeedSearchMetrics_merge a g1 b = SeedSearchMetrics_merge b g2 a"
    by (simp add: SeedSearchMetrics_merge_def add.commute)
  show "SeedSearchMetrics_merge c g1 (SeedSearchMetrics_merge b g2 a) =
     SeedSearchMetrics_merge (SeedSearchMetrics_merge c g3 b) g4 a"
    by (simp add: SeedSearchMetrics_merge_def add.assoc)
qed (simp_all add: SeedSearchMetrics_merge_def unat_word_ariths)

section \<open>SeedResults: add and reset\<close>

subsection \<open>Counting buckets after an assignment\<close>

lemma upt_split_at: "i < n \<Longrightarrow> [0..<n] = [0..<i] @ i # [Suc i..<n]"
  using upt_add_eq_append [of 0 i "n - i"] by (simp add: upt_conv_Cons)

lemma filter_upt_update:
  assumes "i < n" and "i < length rrs" and "\<not> P (rrs ! i)"
  shows "length (filter (\<lambda>j. P (rrs[i := v] ! j)) [0..<n]) =
         length (filter (\<lambda>j. P (rrs ! j)) [0..<n]) + (if P v then 1 else 0)"
proof -
  have a: "filter (\<lambda>j. P (rrs[i := v] ! j)) [0..<i] = filter (\<lambda>j. P (rrs ! j)) [0..<i]"
    by (rule filter_cong) auto
  have b: "filter (\<lambda>j. P (rrs[i := v] ! j)) [Suc i..<n] = filter (\<lambda>j. P (rrs ! j)) [Suc i..<n]"
    by (rule filter_cong) auto
  show ?thesis
    unfolding upt_split_at [OF assms(1)]
    using assms(2,3) by (simp add: a b)
qed

lemma count_nonz_update:
  assumes "i < n" and "i < length rrs" and "\<not> qv_valid (rrs ! i)"
  shows "count_nonz (rrs[i := qv]) n =
         count_nonz rrs n + (if qv_valid qv \<and> 0 < qv_numRanges qv then 1 else 0)"
  using filter_upt_update [of i n rrs "\<lambda>q. qv_valid q \<and> 0 < qv_numRanges q" qv] assms
  by (simp add: count_nonz_def)

lemma count_valid_update:
  assumes "i < n" and "i < length rrs" and "\<not> qv_valid (rrs ! i)" and "qv_valid qv"
  shows "count_valid (rrs[i := qv]) n = Suc (count_valid rrs n)"
  using filter_upt_update [of i n rrs qv_valid qv] assms by (simp add: count_valid_def)

lemma count_valid_le: "count_valid rrs n \<le> n"
  using length_filter_le [of "\<lambda>i. qv_valid (rrs ! i)" "[0..<n]"] by (simp add: count_valid_def)

lemma count_valid_room:
  assumes "i < n" and "i < length rrs" and "\<not> qv_valid (rrs ! i)"
  shows "count_valid rrs n < n"
proof -
  have "count_valid (rrs[i := (rrs ! i)\<lparr>qv_valid := True\<rparr>]) n = Suc (count_valid rrs n)"
    using assms by (intro count_valid_update) simp_all
  with count_valid_le [of "rrs[i := (rrs ! i)\<lparr>qv_valid := True\<rparr>]" n] show ?thesis by simp
qed

subsection \<open>Additions that do not wrap\<close>

lemma unat_uint32_le: "unat (x :: uint32) \<le> 4294967295"
  using unsigned_less [of x, where 'a = nat] by simp

lemma unat_ucast_size_t: "unat (ucast (x :: uint32) :: size_t) = unat x"
  using unsigned_less [of x, where 'a = nat]
  by (simp add: unsigned_ucast_eq take_bit_nat_eq_self)

lemma fits_step:
  fixes x y :: size_t
  assumes "fits x c" and "unat y \<le> 4294967295" and "c < 2 ^ 32"
  shows "unat (x + y) = unat x + unat y" and "fits (x + y) (Suc c)"
proof -
  have "unat x + unat y \<le> 4294967295 * c + 4294967295"
    using assms(1,2) by (simp add: fits_def)
  also have "\<dots> = 4294967295 * Suc c" by simp
  finally have le: "unat x + unat y \<le> 4294967295 * Suc c" .
  have "4294967295 * Suc c \<le> 4294967295 * (2 ^ 32 :: nat)"
    using assms(3) by (intro mult_le_mono2) simp
  also have "\<dots> < 2 ^ 64" by simp
  finally have "4294967295 * Suc c < 2 ^ LENGTH(64)" by simp
  with le have "unat x + unat y < 2 ^ LENGTH(64)" by (rule le_less_trans)
  then show e: "unat (x + y) = unat x + unat y" by (rule unat_add_lem [THEN iffD1])
  show "fits (x + y) (Suc c)" using le by (simp add: fits_def e)
qed

lemma fits_mono: "fits x c \<Longrightarrow> c \<le> d \<Longrightarrow> fits x d"
  unfolding fits_def by (meson le_trans mult_le_mono2)


lemma QVal_repOk_counts:
  assumes "QVal_repOk ac qv"
  shows "qv_valid qv" and "unat (qv_numRanges qv) \<le> unat (qv_numElts qv)"
    and "(if 0 < qv_numRanges qv then 1 else 0) \<le> unat (qv_numRanges qv)"
    and "0 < qv_numElts qv \<longleftrightarrow> 0 < qv_numRanges qv"
proof -
  from assms have v: "qv_valid qv" and le: "qv_numRanges qv \<le> qv_numElts qv"
    and z: "qv_numRanges qv = 0 \<longrightarrow> qv_numElts qv = 0"
    by (simp_all add: QVal_repOk_def)
  show "qv_valid qv" by (rule v)
  show "unat (qv_numRanges qv) \<le> unat (qv_numElts qv)"
    using le by (simp add: word_le_nat_alt)
  show "(if 0 < qv_numRanges qv then 1 else 0) \<le> unat (qv_numRanges qv)"
    by (simp add: word_less_nat_alt)
  show "0 < qv_numElts qv \<longleftrightarrow> 0 < qv_numRanges qv"
    using le z by (auto simp: word_gt_0)
qed

lemma buckets_repOk_update:
  assumes "buckets_repOk ac rrs n" and "\<And>c. ac = Some c \<Longrightarrow> QVal_repOk c qv"
  shows "buckets_repOk ac (rrs[i := qv]) n"
proof (cases "i < length rrs")
  case True
  with assms show ?thesis
    by (cases ac) (auto simp: buckets_repOk_def list_all_iff nth_list_update)
next
  case False
  with assms(1) show ?thesis by (simp add: list_update_beyond not_less)
qed

lemma add_upd_frame:
  "hitsFw_m (add_upd qv i seedFw s) = (if seedFw then (hitsFw_m s)[i := qv] else hitsFw_m s)"
  "hitsRc_m (add_upd qv i seedFw s) = (if seedFw then hitsRc_m s else (hitsRc_m s)[i := qv])"
  "numOffs_m (add_upd qv i seedFw s) = numOffs_m s"
  "read_m (add_upd qv i seedFw s) = read_m s"
  "sortedFw_m (add_upd qv i seedFw s) = sortedFw_m s"
  "sortedRc_m (add_upd qv i seedFw s) = sortedRc_m s"
  "rankOffs_m (add_upd qv i seedFw s) = rankOffs_m s"
  "rankFws_m (add_upd qv i seedFw s) = rankFws_m s"
  "offIdx2off_m (add_upd qv i seedFw s) = offIdx2off_m s"
  "sorted_m (add_upd qv i seedFw s) = sorted_m s"
  by (simp_all add: add_upd_def Let_def)

lemma add_upd_counters:
  "numElts_m (add_upd qv i seedFw s) = numElts_m s + ucast (qv_numElts qv)"
  "numRanges_m (add_upd qv i seedFw s) = numRanges_m s + ucast (qv_numRanges qv)"
  "nonzTot_m (add_upd qv i seedFw s) = nonzTot_m s + (if 0 < qv_numRanges qv then 1 else 0)"
  "numEltsFw_m (add_upd qv i seedFw s) =
     (if seedFw then numEltsFw_m s + ucast (qv_numElts qv) else numEltsFw_m s)"
  "numRangesFw_m (add_upd qv i seedFw s) =
     (if seedFw then numRangesFw_m s + ucast (qv_numRanges qv) else numRangesFw_m s)"
  "nonzFw_m (add_upd qv i seedFw s) =
     (if seedFw then nonzFw_m s + (if 0 < qv_numRanges qv then 1 else 0) else nonzFw_m s)"
  "numEltsRc_m (add_upd qv i seedFw s) =
     (if seedFw then numEltsRc_m s else numEltsRc_m s + ucast (qv_numElts qv))"
  "numRangesRc_m (add_upd qv i seedFw s) =
     (if seedFw then numRangesRc_m s else numRangesRc_m s + ucast (qv_numRanges qv))"
  "nonzRc_m (add_upd qv i seedFw s) =
     (if seedFw then nonzRc_m s else nonzRc_m s + (if 0 < qv_numRanges qv then 1 else 0))"
  by (simp_all add: add_upd_def Let_def)

lemma increments_small:
  "unat (ucast (qv_numElts qv) :: size_t) \<le> 4294967295"
  "unat (ucast (qv_numRanges qv) :: size_t) \<le> 4294967295"
  "unat ((if 0 < qv_numRanges qv then 1 else 0) :: size_t) \<le> 4294967295"
  using unat_uint32_le [of "qv_numElts qv"] unat_uint32_le [of "qv_numRanges qv"]
  by (simp_all add: unat_ucast_size_t)

lemma unat_one_or_zero:
  "unat ((if b then 1 else 0) :: size_t) = (if b then 1 else 0)"
  by simp

text \<open>
  Under \<open>counters_fit\<close> the nine additions of \<^verbatim>\<open>add\<close> are exact, and \<open>counters_fit\<close> holds
  again afterwards.
\<close>

lemma counters_fit_add_upd:
  assumes fit: "counters_fit s" and qv: "qv_valid qv"
    and i: "i < length (if seedFw then hitsFw_m s else hitsRc_m s)"
    and fresh: "\<not> qv_valid ((if seedFw then hitsFw_m s else hitsRc_m s) ! i)"
  shows "counters_fit (add_upd qv i seedFw s)"
    and "unat (numElts_m (add_upd qv i seedFw s)) = unat (numElts_m s) + unat (qv_numElts qv)"
    and "unat (numRanges_m (add_upd qv i seedFw s)) = unat (numRanges_m s) + unat (qv_numRanges qv)"
    and "unat (nonzTot_m (add_upd qv i seedFw s)) =
           unat (nonzTot_m s) + (if 0 < qv_numRanges qv then 1 else 0)"
    and "unat ((if seedFw then numEltsFw_m else numEltsRc_m) (add_upd qv i seedFw s)) =
           unat ((if seedFw then numEltsFw_m else numEltsRc_m) s) + unat (qv_numElts qv)"
    and "unat ((if seedFw then numRangesFw_m else numRangesRc_m) (add_upd qv i seedFw s)) =
           unat ((if seedFw then numRangesFw_m else numRangesRc_m) s) + unat (qv_numRanges qv)"
    and "unat ((if seedFw then nonzFw_m else nonzRc_m) (add_upd qv i seedFw s)) =
           unat ((if seedFw then nonzFw_m else nonzRc_m) s) +
           (if 0 < qv_numRanges qv then 1 else 0)"
proof -
  let ?n = "numOffs_m s"
  let ?s' = "add_upd qv i seedFw s"
  let ?z = "(if 0 < qv_numRanges qv then 1 else 0) :: size_t"
  let ?old = "count_valid (if seedFw then hitsFw_m s else hitsRc_m s) ?n"
  let ?other = "count_valid (if seedFw then hitsRc_m s else hitsFw_m s) ?n"
  from fit have n: "?n \<le> 2 ^ 31"
    and l: "length (hitsFw_m s) = ?n" "length (hitsRc_m s) = ?n"
    by (simp_all add: counters_fit_def)
  from i l have i': "i < ?n" by (simp split: if_splits)
  have room: "?old < ?n"
    using i' i fresh by (rule count_valid_room)
  have new: "count_valid ((if seedFw then hitsFw_m s else hitsRc_m s)[i := qv]) ?n = Suc ?old"
    using i' i fresh qv by (rule count_valid_update)
  have "?other \<le> ?n" by (rule count_valid_le)
  with room n have c1: "?old < 2 ^ 32"
    and c2: "count_valid (hitsRc_m s) ?n + count_valid (hitsFw_m s) ?n < 2 ^ 32"
    by (simp_all split: if_splits)
  have own: "fits ((if seedFw then numEltsFw_m else numEltsRc_m) s) ?old"
    "fits ((if seedFw then numRangesFw_m else numRangesRc_m) s) ?old"
    "fits ((if seedFw then nonzFw_m else nonzRc_m) s) ?old"
    using fit by (simp_all add: counters_fit_def)
  have tot: "fits (numElts_m s) (count_valid (hitsRc_m s) ?n + count_valid (hitsFw_m s) ?n)"
    "fits (numRanges_m s) (count_valid (hitsRc_m s) ?n + count_valid (hitsFw_m s) ?n)"
    "fits (nonzTot_m s) (count_valid (hitsRc_m s) ?n + count_valid (hitsFw_m s) ?n)"
    using fit by (simp_all add: counters_fit_def)
  note e = increments_small [of qv]
  note a = fits_step [OF own(1) e(1) c1] fits_step [OF own(2) e(2) c1] fits_step [OF own(3) e(3) c1]
    fits_step [OF tot(1) e(1) c2] fits_step [OF tot(2) e(2) c2] fits_step [OF tot(3) e(3) c2]
  show "unat (numElts_m ?s') = unat (numElts_m s) + unat (qv_numElts qv)"
    using a(7) by (simp add: add_upd_counters unat_ucast_size_t)
  show "unat (numRanges_m ?s') = unat (numRanges_m s) + unat (qv_numRanges qv)"
    using a(9) by (simp add: add_upd_counters unat_ucast_size_t)
  show "unat (nonzTot_m ?s') = unat (nonzTot_m s) + (if 0 < qv_numRanges qv then 1 else 0)"
    using a(11) by (simp add: add_upd_counters)
  show "unat ((if seedFw then numEltsFw_m else numEltsRc_m) ?s') =
           unat ((if seedFw then numEltsFw_m else numEltsRc_m) s) + unat (qv_numElts qv)"
    using a(1) by (cases seedFw) (simp_all add: add_upd_counters unat_ucast_size_t)
  show "unat ((if seedFw then numRangesFw_m else numRangesRc_m) ?s') =
           unat ((if seedFw then numRangesFw_m else numRangesRc_m) s) + unat (qv_numRanges qv)"
    using a(3) by (cases seedFw) (simp_all add: add_upd_counters unat_ucast_size_t)
  show "unat ((if seedFw then nonzFw_m else nonzRc_m) ?s') =
           unat ((if seedFw then nonzFw_m else nonzRc_m) s) +
           (if 0 < qv_numRanges qv then 1 else 0)"
    using a(5) by (cases seedFw) (simp_all add: add_upd_counters)
  show "counters_fit ?s'"
  proof (cases seedFw)
    case True
    with a(2,4,6,8,10,12) fit new show ?thesis
      by (simp add: counters_fit_def add_upd_frame add_upd_counters)
  next
    case False
    with a(2,4,6,8,10,12) fit new show ?thesis
      by (simp add: counters_fit_def add_upd_frame add_upd_counters)
  qed
qed

subsection \<open>The assertions and the invariants across add and reset\<close>

lemma repOk_add_upd:
  assumes ok: "repOk (Some ac) False s" and fit: "counters_fit s" and qv: "QVal_repOk ac qv"
    and i: "i < length (if seedFw then hitsFw_m s else hitsRc_m s)"
    and fresh: "\<not> qv_valid ((if seedFw then hitsFw_m s else hitsRc_m s) ! i)"
  shows "repOk (Some ac) False (add_upd qv i seedFw s)"
proof (cases "read_m s")
  case None
  then show ?thesis by (simp add: repOk_def add_upd_frame)
next
  case (Some a)
  let ?s' = "add_upd qv i seedFw s"
  let ?n = "numOffs_m s"
  from Some ok have r: "0 < ?n" "?n = length (hitsFw_m s)" "?n = length (hitsRc_m s)"
    "numRanges_m s \<le> numElts_m s" "nonzTot_m s \<le> numRanges_m s"
    "buckets_repOk (Some ac) (hitsRc_m s) ?n" "buckets_repOk (Some ac) (hitsFw_m s) ?n"
    "of_nat (count_nonz (hitsRc_m s) ?n + count_nonz (hitsFw_m s) ?n) = nonzTot_m s"
    by (auto simp: repOk_def)
  note q = QVal_repOk_counts [OF qv]
  note x = counters_fit_add_upd [OF fit q(1) i fresh]
  from i r(2,3) have i': "i < ?n" by (simp split: if_splits)
  have 1: "numRanges_m ?s' \<le> numElts_m ?s'"
    using r(4) q(2) by (simp add: word_le_nat_alt x)
  have 2: "nonzTot_m ?s' \<le> numRanges_m ?s'"
    using r(5) q(3) by (simp add: word_le_nat_alt x)
  have 3: "buckets_repOk (Some ac) (hitsRc_m ?s') ?n" "buckets_repOk (Some ac) (hitsFw_m ?s') ?n"
    using r(6,7) qv by (auto simp: add_upd_frame intro!: buckets_repOk_update)
  have c: "count_nonz (hitsRc_m ?s') ?n + count_nonz (hitsFw_m ?s') ?n =
      count_nonz (hitsRc_m s) ?n + count_nonz (hitsFw_m s) ?n +
      (if 0 < qv_numRanges qv then 1 else 0)"
    using i i' fresh q(1) by (cases seedFw) (simp_all add: add_upd_frame count_nonz_update)
  have 4: "of_nat (count_nonz (hitsRc_m ?s') ?n + count_nonz (hitsFw_m ?s') ?n) = nonzTot_m ?s'"
    unfolding c using r(8) by (simp add: add_upd_counters)
  from Some r(1,2,3) 1 2 3 4 show ?thesis
    by (simp add: repOk_def add_upd_frame)
qed

lemma add_Inr:
  assumes "add qv ac seedIdx seedFw seedLen s = Inr s'"
  shows "QVal_repOk ac qv" and "repOk (Some ac) False s" and "repOk (Some ac) False s'"
    and "qv_empty qv \<longrightarrow> s' = s"
    and "\<not> qv_empty qv \<longrightarrow> s' = add_upd qv (unat seedIdx) seedFw s \<and>
           unat seedIdx < length (if seedFw then hitsFw_m s else hitsRc_m s) \<and>
           \<not> qv_valid ((if seedFw then hitsFw_m s else hitsRc_m s) ! unat seedIdx)"
  using assms by (auto simp: add_def split: if_splits)

lemma counters_inv_add:
  assumes inv: "counters_inv s" and run: "add qv ac seedIdx seedFw seedLen s = Inr s'"
  shows "counters_inv s'"
proof (cases "qv_empty qv")
  case True
  with add_Inr(4) [OF run] inv show ?thesis by simp
next
  case False
  with add_Inr(5) [OF run] have s': "s' = add_upd qv (unat seedIdx) seedFw s" by simp
  from inv have rd: "read_m s' \<noteq> None" by (simp add: s' add_upd_frame counters_inv_def)
  with add_Inr(3) [OF run]
  have "length (hitsFw_m s') = numOffs_m s'" "length (hitsRc_m s') = numOffs_m s'"
    "nonzTot_m s' =
       of_nat (count_nonz (hitsRc_m s') (numOffs_m s') + count_nonz (hitsFw_m s') (numOffs_m s'))"
    "nonzTot_m s' \<le> numRanges_m s'" "numRanges_m s' \<le> numElts_m s'"
    by (auto simp: repOk_def)
  moreover from inv have "numEltsFw_m s' + numEltsRc_m s' = numElts_m s'"
    "numRangesFw_m s' + numRangesRc_m s' = numRanges_m s'" "nonzFw_m s' + nonzRc_m s' = nonzTot_m s'"
    by (auto simp: s' add_upd_counters counters_inv_def)
  ultimately show ?thesis using rd by (simp add: counters_inv_def)
qed

lemma count_nonz_replicate_reset: "count_nonz (replicate n QVal_reset) n = 0"
  by (simp add: count_nonz_def QVal_reset_def)

lemma count_valid_replicate_reset: "count_valid (replicate n QVal_reset) n = 0"
  by (simp add: count_valid_def QVal_reset_def)

lemma counters_inv_reset:
  assumes "SeedResults_reset r off n s = Inr s'"
  shows "counters_inv s'"
  using assms
  by (auto simp: SeedResults_reset_def SeedResults_clear_def counters_inv_def
      count_nonz_replicate_reset split: if_splits)

lemma counters_fit_reset:
  assumes "SeedResults_reset r off n s = Inr s'" and "n \<le> 2 ^ 31"
  shows "counters_fit s'"
  using assms
  by (auto simp: SeedResults_reset_def SeedResults_clear_def counters_fit_def fits_def
      count_valid_replicate_reset split: if_splits)

lemma counters_fit_add:
  assumes "counters_fit s" and run: "add qv ac seedIdx seedFw seedLen s = Inr s'"
  shows "counters_fit s'"
proof (cases "qv_empty qv")
  case True
  with add_Inr(4) [OF run] assms(1) show ?thesis by simp
next
  case False
  with add_Inr(5) [OF run] have "s' = add_upd qv (unat seedIdx) seedFw s"
    and "unat seedIdx < length (if seedFw then hitsFw_m s else hitsRc_m s)"
    and "\<not> qv_valid ((if seedFw then hitsFw_m s else hitsRc_m s) ! unat seedIdx)"
    by simp_all
  with assms(1) QVal_repOk_counts(1) [OF add_Inr(1) [OF run]] show ?thesis
    by (simp add: counters_fit_add_upd)
qed

lemma counters_fit_run_calls:
  assumes "counters_fit s" and "run_calls cs s = Inr s'"
    and "\<forall>c\<in>set cs. \<forall>r off n. c = Reset r off n \<longrightarrow> n \<le> 2 ^ 31"
  shows "counters_fit s'"
  using assms
proof (induction cs arbitrary: s)
  case Nil
  then show ?case by simp
next
  case (Cons c cs)
  from Cons.prems(2) obtain s1 where s1: "run_call c s = Inr s1" and rest: "run_calls cs s1 = Inr s'"
    by (auto split: sum.splits)
  have "counters_fit s1"
  proof (cases c)
    case (Reset r off n)
    with s1 Cons.prems(3) show ?thesis by (simp add: counters_fit_reset)
  next
    case (Add qv ac seedIdx seedFw seedLen)
    with s1 Cons.prems(1) show ?thesis by (simp add: counters_fit_add)
  qed
  then show ?case using rest Cons.prems(3) by (intro Cons.IH) simp_all
qed

lemma count_nonz_le: "count_nonz rrs n \<le> n"
  using length_filter_le [of "\<lambda>i. qv_valid (rrs ! i) \<and> 0 < qv_numRanges (rrs ! i)" "[0..<n]"]
  by (simp add: count_nonz_def)

lemma unat_of_nat_size_t: "n < 2 ^ 64 \<Longrightarrow> unat (of_nat n :: size_t) = n"
  by (simp add: unat_of_nat take_bit_nat_eq_self)

subsection \<open>Concrete runs\<close>

lemmas concrete_defs = blank_def fresh1_def fresh2_def filled2_def qval_def any_cache_def
  QVal_reset_def

lemma replicate_two: "replicate 2 x = [x, x]"
  by (simp add: numeral_2_eq_2)

lemma reset_fresh1: "SeedResults_reset 1 [0] 1 blank = Inr fresh1"
  by (simp add: SeedResults_reset_def SeedResults_clear_def concrete_defs)

lemma reset_fresh2: "SeedResults_reset 1 [0, 10] 2 blank = Inr fresh2"
  by (simp add: SeedResults_reset_def SeedResults_clear_def concrete_defs replicate_two)

lemma repOk_fresh1: "repOk (Some any_cache) False fresh1"
  by (simp add: repOk_def buckets_repOk_def count_nonz_def concrete_defs)

lemma repOk_fresh2: "repOk (Some any_cache) False fresh2"
  by (simp add: repOk_def buckets_repOk_def count_nonz_def concrete_defs upt_rec)

lemma counters_fit_fresh2: "counters_fit fresh2"
  using counters_fit_reset [OF reset_fresh2] by simp

lemma counters_inv_fresh2: "counters_inv fresh2"
  using reset_fresh2 by (rule counters_inv_reset)

lemmas run_eval = SeedResults_reset_def SeedResults_clear_def add_def add_upd_def repOk_def
  buckets_repOk_def count_nonz_def QVal_repOk_def upt_rec replicate_two

lemma run_filled2:
  "run_calls [Reset 1 [0, 10] 2, Add (qval 1 5) any_cache 0 True 20,
      Add (qval 2 3) any_cache 0 False 20, Add (qval 0 0) any_cache 1 True 20,
      Add (qval 1 3) any_cache 1 False 20] blank = Inr filled2"
  by (simp add: run_eval concrete_defs)

lemma run_fresh2_filled2:
  "run_calls [Add (qval 1 5) any_cache 0 True 20,
      Add (qval 2 3) any_cache 0 False 20, Add (qval 0 0) any_cache 1 True 20,
      Add (qval 1 3) any_cache 1 False 20] fresh2 = Inr filled2"
  by (simp add: run_eval concrete_defs)

subsection \<open>The claims about add and reset\<close>

text \<open>
  C9. For every state and every \<open>QVal\<close> that is \<^verbatim>\<open>empty()\<close>, \<^verbatim>\<open>add\<close> changes nothing: it
  returns the object as it was (no bucket stored, no counter touched), unless one of the
  four assertions at its entry fails, which stops the program.
\<close>

theorem add_empty_unchanged:
  assumes "qv_empty qv"
  shows "add qv ac seedIdx seedFw seedLen s =
     (if QVal_repOk ac qv \<and> repOk (Some ac) False s \<and> unat seedIdx < length (hitsFw_m s) \<and>
         0 < numOffs_m s
      then Inr s else Inl AssertionFailed)"
  using assms by (simp add: add_def)

theorem add_empty_unchanged_witness:
  "qv_empty (qval 0 0) \<and> add (qval 0 0) any_cache 1 False 20 fresh2 = Inr fresh2"
proof -
  have e: "qv_empty (qval 0 0)" by (simp add: qval_def)
  have "QVal_repOk any_cache (qval 0 0)" by (simp add: QVal_repOk_def concrete_defs)
  moreover have "unat (1 :: uint32) < length (hitsFw_m fresh2)" "0 < numOffs_m fresh2"
    by (simp_all add: concrete_defs)
  ultimately show ?thesis
    using add_empty_unchanged [OF e, of any_cache 1 False 20 fresh2] repOk_fresh2 e by simp
qed

text \<open>
  C7 as stated fails for a \<open>QVal\<close> that is valid with respect to the cache and empty (a
  seed without a hit): \<^verbatim>\<open>add\<close> returns at \<^verbatim>\<open>if(qv.empty()) return;\<close> and the bucket keeps
  the \<open>QVal\<close> that \<^verbatim>\<open>reset\<close> left there.
\<close>

theorem add_empty_not_stored:
  "SeedResults_reset 1 [0] 1 blank = Inr fresh1 \<and>
   QVal_repOk any_cache (qval 0 0) \<and>
   unat (0 :: uint32) < numOffs_m fresh1 \<and>
   \<not> qv_valid (hitsFw_m fresh1 ! unat (0 :: uint32)) \<and>
   add (qval 0 0) any_cache 0 True 20 fresh1 = Inr fresh1 \<and>
   hitsFw_m fresh1 ! unat (0 :: uint32) \<noteq> qval 0 0"
proof -
  have "add (qval 0 0) any_cache 0 True 20 fresh1 = Inr fresh1"
    using repOk_fresh1 by (simp add: add_def QVal_repOk_def concrete_defs)
  then show ?thesis
    using reset_fresh1 by (simp add: QVal_repOk_def concrete_defs)
qed

text \<open>
  C7, amended: for an object that has been reset (\<^verbatim>\<open>read_\<close> is set and \<^verbatim>\<open>repOk\<close> holds) and
  whose counters are within the bound \<open>counters_fit\<close> (at most \<open>2 ^ 31\<close> offsets, every
  counter at most \<open>2 ^ 32 - 1\<close> per valid bucket, as \<^verbatim>\<open>reset\<close> and \<^verbatim>\<open>add\<close> leave them), an
  index below \<^verbatim>\<open>numOffs_\<close> whose bucket is not valid yet, and a \<open>QVal\<close> that is valid with
  respect to the cache and not empty, \<^verbatim>\<open>add\<close> passes all its assertions, stores the \<open>QVal\<close>
  in \<^verbatim>\<open>hitsFw_[seedIdx]\<close> (forward) or \<^verbatim>\<open>hitsRc_[seedIdx]\<close> (reverse complement), adds
  \<^verbatim>\<open>numElts()\<close> and \<^verbatim>\<open>numRanges()\<close> to the counters of that orientation and to the totals,
  and adds 1 to the two counts of non-zero buckets when \<^verbatim>\<open>numRanges() > 0\<close>, no addition
  wrapping; the other orientation is left alone, and the bound holds again.
\<close>

theorem add_stores_and_counts:
  assumes ok: "repOk (Some ac) False s" and inited: "read_m s \<noteq> None"
    and fit: "counters_fit s"
    and qv: "QVal_repOk ac qv" and nonempty: "\<not> qv_empty qv"
    and idx: "unat seedIdx < numOffs_m s"
    and fresh: "\<not> qv_valid ((if seedFw then hitsFw_m s else hitsRc_m s) ! unat seedIdx)"
  shows "\<exists>s'. add qv ac seedIdx seedFw seedLen s = Inr s' \<and>
    (if seedFw
     then hitsFw_m s' = (hitsFw_m s)[unat seedIdx := qv] \<and>
          hitsFw_m s' ! unat seedIdx = qv \<and>
          hitsRc_m s' = hitsRc_m s \<and>
          unat (numEltsFw_m s') = unat (numEltsFw_m s) + unat (qv_numElts qv) \<and>
          unat (numRangesFw_m s') = unat (numRangesFw_m s) + unat (qv_numRanges qv) \<and>
          unat (nonzFw_m s') = unat (nonzFw_m s) + (if 0 < qv_numRanges qv then 1 else 0) \<and>
          numEltsRc_m s' = numEltsRc_m s \<and> numRangesRc_m s' = numRangesRc_m s \<and>
          nonzRc_m s' = nonzRc_m s
     else hitsRc_m s' = (hitsRc_m s)[unat seedIdx := qv] \<and>
          hitsRc_m s' ! unat seedIdx = qv \<and>
          hitsFw_m s' = hitsFw_m s \<and>
          unat (numEltsRc_m s') = unat (numEltsRc_m s) + unat (qv_numElts qv) \<and>
          unat (numRangesRc_m s') = unat (numRangesRc_m s) + unat (qv_numRanges qv) \<and>
          unat (nonzRc_m s') = unat (nonzRc_m s) + (if 0 < qv_numRanges qv then 1 else 0) \<and>
          numEltsFw_m s' = numEltsFw_m s \<and> numRangesFw_m s' = numRangesFw_m s \<and>
          nonzFw_m s' = nonzFw_m s) \<and>
    unat (numElts_m s') = unat (numElts_m s) + unat (qv_numElts qv) \<and>
    unat (numRanges_m s') = unat (numRanges_m s) + unat (qv_numRanges qv) \<and>
    unat (nonzTot_m s') = unat (nonzTot_m s) + (if 0 < qv_numRanges qv then 1 else 0) \<and>
    counters_fit s'"
proof -
  let ?s' = "add_upd qv (unat seedIdx) seedFw s"
  from ok inited have len: "numOffs_m s = length (hitsFw_m s)" "numOffs_m s = length (hitsRc_m s)"
    by (auto simp: repOk_def)
  with idx have i: "unat seedIdx < length (if seedFw then hitsFw_m s else hitsRc_m s)"
    and i': "unat seedIdx < length (hitsFw_m s)" and n: "0 < numOffs_m s"
    by auto
  have after: "repOk (Some ac) False ?s'"
    using ok fit qv i fresh by (rule repOk_add_upd)
  have run: "add qv ac seedIdx seedFw seedLen s = Inr ?s'"
    using ok qv nonempty i i' n fresh after by (simp add: add_def)
  note x = counters_fit_add_upd [OF fit QVal_repOk_counts(1) [OF qv] i fresh]
  have tot: "unat (numElts_m ?s') = unat (numElts_m s) + unat (qv_numElts qv)"
    "unat (numRanges_m ?s') = unat (numRanges_m s) + unat (qv_numRanges qv)"
    "unat (nonzTot_m ?s') = unat (nonzTot_m s) + (if 0 < qv_numRanges qv then 1 else 0)"
    "counters_fit ?s'"
    by (rule x)+
  show ?thesis
  proof (cases seedFw)
    case True
    with x(5,6,7) i tot show ?thesis
      unfolding run by (simp add: add_upd_frame add_upd_counters)
  next
    case False
    with x(5,6,7) i tot show ?thesis
      unfolding run by (simp add: add_upd_frame add_upd_counters)
  qed
qed

theorem add_stores_and_counts_witness:
  "repOk (Some any_cache) False fresh2 \<and>
   read_m fresh2 \<noteq> None \<and> counters_fit fresh2 \<and>
   QVal_repOk any_cache (qval 2 3) \<and> \<not> qv_empty (qval 2 3) \<and>
   unat (1 :: uint32) < numOffs_m fresh2 \<and>
   \<not> qv_valid (hitsRc_m fresh2 ! unat (1 :: uint32)) \<and>
   add (qval 2 3) any_cache 1 False 20 fresh2 =
     Inr (fresh2\<lparr> hitsRc_m := [QVal_reset, qval 2 3], numEltsRc_m := 3, numRangesRc_m := 2,
            nonzRc_m := 1, numElts_m := 3, numRanges_m := 2, nonzTot_m := 1 \<rparr>) \<and>
   (\<exists>s'. add (qval 2 3) any_cache 1 False 20 fresh2 = Inr s' \<and>
      hitsRc_m s' ! unat (1 :: uint32) = qval 2 3 \<and>
      unat (numElts_m s') = unat (numElts_m fresh2) + unat (qv_numElts (qval 2 3)))"
proof -
  have h: "QVal_repOk any_cache (qval 2 3)" "\<not> qv_empty (qval 2 3)"
    "unat (1 :: uint32) < numOffs_m fresh2"
    by (simp_all add: QVal_repOk_def concrete_defs)
  have r: "read_m fresh2 \<noteq> None" by (simp add: concrete_defs)
  have f: "\<not> qv_valid ((if False then hitsFw_m fresh2 else hitsRc_m fresh2) ! unat (1 :: uint32))"
    by (simp add: concrete_defs)
  have f': "\<not> qv_valid (hitsRc_m fresh2 ! unat (1 :: uint32))"
    using f by simp
  from add_stores_and_counts [OF repOk_fresh2 r counters_fit_fresh2 h f, of 20]
  have ex: "\<exists>s'. add (qval 2 3) any_cache 1 False 20 fresh2 = Inr s' \<and>
      hitsRc_m s' ! unat (1 :: uint32) = qval 2 3 \<and>
      unat (numElts_m s') = unat (numElts_m fresh2) + unat (qv_numElts (qval 2 3))"
    by auto
  have ev: "add (qval 2 3) any_cache 1 False 20 fresh2 =
     Inr (fresh2\<lparr> hitsRc_m := [QVal_reset, qval 2 3], numEltsRc_m := 3, numRangesRc_m := 2,
            nonzRc_m := 1, numElts_m := 3, numRanges_m := 2, nonzTot_m := 1 \<rparr>)"
    by (simp add: run_eval concrete_defs)
  from repOk_fresh2 r counters_fit_fresh2 h f' ev ex show ?thesis by (intro conjI)
qed

text \<open>
  C10. Every sequence of \<^verbatim>\<open>reset\<close> and \<^verbatim>\<open>add\<close> calls that runs to its end (no assertion
  fails) preserves the invariant \<open>counters_inv\<close>, and establishes it from any state when
  it starts with \<^verbatim>\<open>reset\<close>: \<^verbatim>\<open>nonzTot_\<close> is the number of buckets with a valid \<open>QVal\<close> of at
  least one range (as a \<^verbatim>\<open>size_t\<close>; the number itself for fewer than \<open>2 ^ 63\<close> offsets),
  \<^verbatim>\<open>nonzTot_ <= numRanges_ <= numElts_\<close>, and the counters of the two orientations add up
  to the totals. The counters are the \<^verbatim>\<open>size_t\<close> of the code, and their additions wrap;
  when no \<^verbatim>\<open>reset\<close> of the sequence has more than \<open>2 ^ 31\<close> offsets, the counters stay
  within the bound \<open>counters_fit\<close>, under which no addition wraps and the exit assertion
  of \<^verbatim>\<open>add\<close> passes (lemmas \<open>counters_fit_add_upd\<close> and \<open>repOk_add_upd\<close>).
\<close>

theorem counters_inv_run_calls:
  assumes "counters_inv s \<or> (\<exists>r off n cs'. cs = Reset r off n # cs')"
    and "run_calls cs s = Inr s'"
  shows "counters_inv s' \<and>
    (numOffs_m s' < 2 ^ 63 \<longrightarrow>
       unat (nonzTot_m s') =
         count_nonz (hitsRc_m s') (numOffs_m s') + count_nonz (hitsFw_m s') (numOffs_m s')) \<and>
    ((counters_fit s \<or> (\<exists>r off n cs'. cs = Reset r off n # cs')) \<and>
     (\<forall>c\<in>set cs. \<forall>r off n. c = Reset r off n \<longrightarrow> n \<le> 2 ^ 31) \<longrightarrow>
       counters_fit s')"
proof -
  have keep: "counters_inv t'" if "counters_inv t" and "run_calls ds t = Inr t'" for ds t t'
    using that
  proof (induction ds arbitrary: t)
    case Nil
    then show ?case by simp
  next
    case (Cons c ds)
    from Cons.prems(2) obtain t1 where t1: "run_call c t = Inr t1"
      and rest: "run_calls ds t1 = Inr t'"
      by (auto split: sum.splits)
    have "counters_inv t1"
    proof (cases c)
      case (Reset r off n)
      with t1 show ?thesis by (simp add: counters_inv_reset)
    next
      case (Add qv ac seedIdx seedFw seedLen)
      with t1 Cons.prems(1) show ?thesis by (simp add: counters_inv_add)
    qed
    then show ?case using rest by (rule Cons.IH)
  qed
  from assms(1) have inv: "counters_inv s'"
  proof
    assume "counters_inv s"
    then show ?thesis using assms(2) by (rule keep)
  next
    assume "\<exists>r off n cs'. cs = Reset r off n # cs'"
    then obtain r off n cs' where cs: "cs = Reset r off n # cs'" by blast
    with assms(2) obtain s1 where s1: "SeedResults_reset r off n s = Inr s1"
      and rest: "run_calls cs' s1 = Inr s'"
      by (auto split: sum.splits)
    from counters_inv_reset [OF s1] rest show ?thesis by (rule keep)
  qed
  have "unat (nonzTot_m s') =
         count_nonz (hitsRc_m s') (numOffs_m s') + count_nonz (hitsFw_m s') (numOffs_m s')"
    if n: "numOffs_m s' < 2 ^ 63"
  proof -
    let ?c = "count_nonz (hitsRc_m s') (numOffs_m s') + count_nonz (hitsFw_m s') (numOffs_m s')"
    have "?c \<le> 2 * numOffs_m s'"
      using count_nonz_le [of "hitsRc_m s'" "numOffs_m s'"]
        count_nonz_le [of "hitsFw_m s'" "numOffs_m s'"] by simp
    with n have "?c < 2 ^ 64" by simp
    then have "unat (of_nat ?c :: size_t) = ?c" by (rule unat_of_nat_size_t)
    with inv show ?thesis by (simp add: counters_inv_def)
  qed
  moreover have "counters_fit s'"
    if b: "\<forall>c\<in>set cs. \<forall>r off n. c = Reset r off n \<longrightarrow> n \<le> 2 ^ 31"
      and f: "counters_fit s \<or> (\<exists>r off n cs'. cs = Reset r off n # cs')"
    using f
  proof
    assume "counters_fit s"
    then show ?thesis using assms(2) b by (rule counters_fit_run_calls)
  next
    assume "\<exists>r off n cs'. cs = Reset r off n # cs'"
    then obtain r off n cs' where cs: "cs = Reset r off n # cs'" by blast
    with assms(2) obtain s1 where s1: "SeedResults_reset r off n s = Inr s1"
      and rest: "run_calls cs' s1 = Inr s'"
      by (auto split: sum.splits)
    from b cs have n: "n \<le> 2 ^ 31" and b': "\<forall>c\<in>set cs'. \<forall>r off n. c = Reset r off n \<longrightarrow> n \<le> 2 ^ 31"
      by simp_all
    from counters_fit_reset [OF s1 n] rest b' show ?thesis by (rule counters_fit_run_calls)
  qed
  ultimately show ?thesis using inv by blast
qed

theorem counters_inv_run_calls_witness:
  "counters_inv fresh2 \<and>
   run_calls [Add (qval 1 5) any_cache 0 True 20,
      Add (qval 2 3) any_cache 0 False 20, Add (qval 0 0) any_cache 1 True 20,
      Add (qval 1 3) any_cache 1 False 20] fresh2 = Inr filled2 \<and>
   run_calls [Reset 1 [0, 10] 2, Add (qval 1 5) any_cache 0 True 20,
      Add (qval 2 3) any_cache 0 False 20, Add (qval 0 0) any_cache 1 True 20,
      Add (qval 1 3) any_cache 1 False 20] blank = Inr filled2 \<and>
   counters_inv filled2 \<and> counters_fit filled2 \<and>
   nonzTot_m filled2 = 3 \<and> numRanges_m filled2 = 4 \<and> numElts_m filled2 = 11 \<and>
   count_nonz (hitsRc_m filled2) (numOffs_m filled2) +
     count_nonz (hitsFw_m filled2) (numOffs_m filled2) = 3"
proof -
  have a: "counters_inv fresh2 \<or>
      (\<exists>r off n cs'. [Add (qval 1 5) any_cache 0 True 20,
      Add (qval 2 3) any_cache 0 False 20, Add (qval 0 0) any_cache 1 True 20,
      Add (qval 1 3) any_cache 1 False 20] = Reset r off n # cs')"
    using counters_inv_fresh2 by simp
  have n: "numOffs_m filled2 < 2 ^ 63" by (simp add: concrete_defs)
  have b: "\<forall>c\<in>set [Add (qval 1 5) any_cache 0 True 20,
      Add (qval 2 3) any_cache 0 False 20, Add (qval 0 0) any_cache 1 True 20,
      Add (qval 1 3) any_cache 1 False 20]. \<forall>r off n. c = Reset r off n \<longrightarrow> n \<le> 2 ^ 31"
    by simp
  from counters_inv_run_calls [OF a run_fresh2_filled2] n b counters_fit_fresh2
  have "counters_inv filled2" and "unat (nonzTot_m filled2) =
      count_nonz (hitsRc_m filled2) (numOffs_m filled2) +
      count_nonz (hitsFw_m filled2) (numOffs_m filled2)" and "counters_fit filled2"
    by blast+
  with counters_inv_fresh2 run_fresh2_filled2 run_filled2 show ?thesis
    by (simp add: filled2_def fresh2_def)
qed

section \<open>SeedResults: sort\<close>

lemma scan_buckets_pure:
  assumes "\<forall>i\<in>set js. i < length (if fw then hitsFw_m s else hitsRc_m s) \<and>
                       i < length (if fw then sortedFw_m s else sortedRc_m s)"
  shows "scan_buckets (if fw then hitsFw_m s else hitsRc_m s)
           (if fw then sortedFw_m s else sortedRc_m s) fw js m =
         Inr (foldl (take_better s) m (map (Pair fw) js))"
  using assms
proof (induction js arbitrary: m)
  case Nil
  show ?case by simp
next
  case (Cons i js)
  have "scan_bucket (if fw then hitsFw_m s else hitsRc_m s)
           (if fw then sortedFw_m s else sortedRc_m s) fw i m = Inr (take_better s m (fw, i))"
    using Cons.prems
    by (auto simp: scan_bucket_def take_better_def candidate_def bucket_def slot_sorted_def)
  then show ?case using Cons by simp
qed

lemma find_min_pure:
  assumes "numOffs_m s < 2 ^ 32"
    and "length (hitsFw_m s) = numOffs_m s" and "length (hitsRc_m s) = numOffs_m s"
    and "length (sortedFw_m s) = numOffs_m s" and "length (sortedRc_m s) = numOffs_m s"
  shows "find_min s =
         Inr (foldl (take_better s) (0xFFFFFFFF, True, 0) (scan_order (numOffs_m s)))"
proof -
  have rc: "scan_buckets (hitsRc_m s) (sortedRc_m s) False [0..<numOffs_m s] m =
        Inr (foldl (take_better s) m (map (Pair False) [0..<numOffs_m s]))" for m
    using scan_buckets_pure [of "[0..<numOffs_m s]" False s m] assms by simp
  have fw: "scan_buckets (hitsFw_m s) (sortedFw_m s) True [0..<numOffs_m s] m =
        Inr (foldl (take_better s) m (map (Pair True) [0..<numOffs_m s]))" for m
    using scan_buckets_pure [of "[0..<numOffs_m s]" True s m] assms by simp
  show ?thesis
    using assms(1) by (simp add: find_min_def rc fw scan_order_def)
qed

lemma first_minimum:
  "(foldl (take_better s) m0 xs = m0 \<and>
      (\<forall>q\<in>set xs. candidate s q \<longrightarrow> fst m0 \<le> qv_numElts (bucket s q))) \<or>
   (\<exists>ys zs p. foldl (take_better s) m0 xs = (qv_numElts (bucket s p), p) \<and>
      xs = ys @ p # zs \<and> candidate s p \<and> qv_numElts (bucket s p) < fst m0 \<and>
      (\<forall>q\<in>set ys. candidate s q \<longrightarrow> qv_numElts (bucket s p) < qv_numElts (bucket s q)) \<and>
      (\<forall>q\<in>set zs. candidate s q \<longrightarrow> qv_numElts (bucket s p) \<le> qv_numElts (bucket s q)))"
proof (induction xs arbitrary: m0)
  case Nil
  show ?case by simp
next
  case (Cons x xs)
  show ?case
  proof (cases "candidate s x \<and> qv_numElts (bucket s x) < fst m0")
    case True
    then have step: "take_better s m0 x = (qv_numElts (bucket s x), x)"
      by (simp add: take_better_def)
    from Cons.IH [of "(qv_numElts (bucket s x), x)"]
    show ?thesis
    proof
      assume a: "foldl (take_better s) (qv_numElts (bucket s x), x) xs = (qv_numElts (bucket s x), x) \<and>
        (\<forall>q\<in>set xs. candidate s q \<longrightarrow> fst (qv_numElts (bucket s x), x) \<le> qv_numElts (bucket s q))"
      have "foldl (take_better s) m0 (x # xs) = (qv_numElts (bucket s x), x) \<and>
        x # xs = [] @ x # xs \<and> candidate s x \<and> qv_numElts (bucket s x) < fst m0 \<and>
        (\<forall>q\<in>set []. candidate s q \<longrightarrow> qv_numElts (bucket s x) < qv_numElts (bucket s q)) \<and>
        (\<forall>q\<in>set xs. candidate s q \<longrightarrow> qv_numElts (bucket s x) \<le> qv_numElts (bucket s q))"
        using a True step by simp
      then show ?thesis by blast
    next
      assume "\<exists>ys zs p. foldl (take_better s) (qv_numElts (bucket s x), x) xs = (qv_numElts (bucket s p), p) \<and>
        xs = ys @ p # zs \<and> candidate s p \<and> qv_numElts (bucket s p) < fst (qv_numElts (bucket s x), x) \<and>
        (\<forall>q\<in>set ys. candidate s q \<longrightarrow> qv_numElts (bucket s p) < qv_numElts (bucket s q)) \<and>
        (\<forall>q\<in>set zs. candidate s q \<longrightarrow> qv_numElts (bucket s p) \<le> qv_numElts (bucket s q))"
      then obtain ys zs p where
        f: "foldl (take_better s) (qv_numElts (bucket s x), x) xs = (qv_numElts (bucket s p), p)"
        and xs: "xs = ys @ p # zs" and c: "candidate s p"
        and lt: "qv_numElts (bucket s p) < qv_numElts (bucket s x)"
        and ys: "\<forall>q\<in>set ys. candidate s q \<longrightarrow> qv_numElts (bucket s p) < qv_numElts (bucket s q)"
        and zs: "\<forall>q\<in>set zs. candidate s q \<longrightarrow> qv_numElts (bucket s p) \<le> qv_numElts (bucket s q)"
        by auto
      have "foldl (take_better s) m0 (x # xs) = (qv_numElts (bucket s p), p) \<and>
        x # xs = (x # ys) @ p # zs \<and> candidate s p \<and> qv_numElts (bucket s p) < fst m0 \<and>
        (\<forall>q\<in>set (x # ys). candidate s q \<longrightarrow> qv_numElts (bucket s p) < qv_numElts (bucket s q)) \<and>
        (\<forall>q\<in>set zs. candidate s q \<longrightarrow> qv_numElts (bucket s p) \<le> qv_numElts (bucket s q))"
        using f xs c lt ys zs True step by auto
      then show ?thesis by blast
    qed
  next
    case False
    then have step: "take_better s m0 x = m0"
      by (auto simp: take_better_def)
    from False have x: "candidate s x \<longrightarrow> fst m0 \<le> qv_numElts (bucket s x)"
      by auto
    from Cons.IH [of m0]
    show ?thesis
    proof
      assume "foldl (take_better s) m0 xs = m0 \<and>
        (\<forall>q\<in>set xs. candidate s q \<longrightarrow> fst m0 \<le> qv_numElts (bucket s q))"
      then show ?thesis using step x by simp
    next
      assume "\<exists>ys zs p. foldl (take_better s) m0 xs = (qv_numElts (bucket s p), p) \<and>
        xs = ys @ p # zs \<and> candidate s p \<and> qv_numElts (bucket s p) < fst m0 \<and>
        (\<forall>q\<in>set ys. candidate s q \<longrightarrow> qv_numElts (bucket s p) < qv_numElts (bucket s q)) \<and>
        (\<forall>q\<in>set zs. candidate s q \<longrightarrow> qv_numElts (bucket s p) \<le> qv_numElts (bucket s q))"
      then obtain ys zs p where
        f: "foldl (take_better s) m0 xs = (qv_numElts (bucket s p), p)"
        and xs: "xs = ys @ p # zs" and c: "candidate s p"
        and lt: "qv_numElts (bucket s p) < fst m0"
        and ys: "\<forall>q\<in>set ys. candidate s q \<longrightarrow> qv_numElts (bucket s p) < qv_numElts (bucket s q)"
        and zs: "\<forall>q\<in>set zs. candidate s q \<longrightarrow> qv_numElts (bucket s p) \<le> qv_numElts (bucket s q)"
        by auto
      have "foldl (take_better s) m0 (x # xs) = (qv_numElts (bucket s p), p) \<and>
        x # xs = (x # ys) @ p # zs \<and> candidate s p \<and> qv_numElts (bucket s p) < fst m0 \<and>
        (\<forall>q\<in>set (x # ys). candidate s q \<longrightarrow> qv_numElts (bucket s p) < qv_numElts (bucket s q)) \<and>
        (\<forall>q\<in>set zs. candidate s q \<longrightarrow> qv_numElts (bucket s p) \<le> qv_numElts (bucket s q))"
        using f xs c lt ys zs x step by auto
      then show ?thesis by blast
    qed
  qed
qed

lemma sorted_scan_order: "sorted_wrt scanned_before (scan_order n)"
  by (auto simp: scan_order_def sorted_wrt_append sorted_wrt_map scanned_before_def)

lemma distinct_scan_order: "distinct (scan_order n)"
  by (auto simp: scan_order_def distinct_map inj_on_def)

lemma set_scan_order: "set (scan_order n) = {p. snd p < n}"
  by (auto simp: scan_order_def image_iff)

lemma uint32_max: "(x :: uint32) \<le> 0xFFFFFFFF"
proof -
  have "x \<le> - 1" by simp
  also have "(- 1 :: uint32) = 0xFFFFFFFF" by simp
  finally show ?thesis .
qed

lemma below_uint32_max: "(x :: uint32) \<noteq> 0xFFFFFFFF \<Longrightarrow> x < 0xFFFFFFFF"
  using uint32_max [of x] by (simp add: order_less_le)

lemma push_frame:
  "hitsFw_m (push p s) = hitsFw_m s" "hitsRc_m (push p s) = hitsRc_m s"
  "numOffs_m (push p s) = numOffs_m s" "nonzTot_m (push p s) = nonzTot_m s"
  "rankOffs_m (push p s) = rankOffs_m s @ [snd p]"
  "rankFws_m (push p s) = rankFws_m s @ [fst p]"
  "length (sortedFw_m (push p s)) = length (sortedFw_m s)"
  "length (sortedRc_m (push p s)) = length (sortedRc_m s)"
  by (simp_all add: push_def)

lemma bucket_push: "bucket (push p s) = bucket s"
  by (rule ext) (simp add: bucket_def push_frame)

lemma nonempty_slot_push: "nonempty_slot (push p s) = nonempty_slot s"
  by (rule ext) (simp add: nonempty_slot_def bucket_push push_frame)

lemma rank_less_push: "rank_less (push p s) = rank_less s"
  by (intro ext) (simp add: rank_less_def bucket_push)

lemma ranked_push:
  "length (rankFws_m s) = length (rankOffs_m s) \<Longrightarrow> ranked (push p s) = ranked s @ [p]"
  by (simp add: ranked_def push_frame)

lemma slot_sorted_push:
  assumes "snd p < length (if fst p then sortedFw_m s else sortedRc_m s)"
  shows "slot_sorted (push p s) q = (q = p \<or> slot_sorted s q)"
proof (cases "q = p")
  case True
  with assms show ?thesis by (auto simp: slot_sorted_def push_def)
next
  case False
  then have "fst q \<noteq> fst p \<or> snd q \<noteq> snd p" by (auto simp: prod_eq_iff)
  then show ?thesis using False by (auto simp: slot_sorted_def push_def)
qed

lemma sort_inv_push:
  assumes inv: "sort_inv s" and p: "nonempty_slot s p" and new: "p \<notin> set (ranked s)"
    and least: "\<forall>q. nonempty_slot s q \<and> q \<notin> set (ranked s) \<and> q \<noteq> p \<longrightarrow> rank_less s p q"
  shows "sort_inv (push p s)"
proof -
  from inv have len: "length (rankFws_m s) = length (rankOffs_m s)"
    and lf: "length (sortedFw_m s) = numOffs_m s" and lr: "length (sortedRc_m s) = numOffs_m s"
    by (simp_all add: sort_inv_def)
  from p have pn: "snd p < numOffs_m s" by (simp add: nonempty_slot_def)
  with lf lr have pl: "snd p < length (if fst p then sortedFw_m s else sortedRc_m s)" by simp
  note r = ranked_push [OF len]
  have 1: "distinct (ranked (push p s))"
    using inv new by (simp add: r sort_inv_def)
  have 2: "\<forall>x\<in>set (ranked (push p s)). nonempty_slot s x"
    using inv p by (simp add: r sort_inv_def)
  have 3: "\<forall>q. snd q < numOffs_m s \<longrightarrow> slot_sorted (push p s) q = (q \<in> set (ranked (push p s)))"
    using inv by (auto simp: r slot_sorted_push [OF pl] sort_inv_def)
  from inv have older: "\<forall>x\<in>set (ranked s). \<forall>q. nonempty_slot s q \<and> q \<notin> set (ranked s) \<longrightarrow>
      rank_less s x q"
    by (simp add: sort_inv_def)
  with p new have below: "\<forall>x\<in>set (ranked s). rank_less s x p"
    by blast
  have 4: "sorted_wrt (rank_less s) (ranked (push p s))"
    using inv below by (simp add: r sorted_wrt_append sort_inv_def)
  have 5: "\<forall>x\<in>set (ranked (push p s)). \<forall>q. nonempty_slot s q \<and> q \<notin> set (ranked (push p s)) \<longrightarrow>
      rank_less s x q"
    using older least by (simp add: r)
  show ?thesis
    using inv 1 2 3 4 5
    by (simp add: sort_inv_def [of "push p s"] push_frame nonempty_slot_push rank_less_push
        bucket_push) (simp add: sort_inv_def)
qed

lemma unranked_slot:
  assumes inv: "sort_inv s" and more: "length (rankOffs_m s) < unat (nonzTot_m s)"
  shows "\<exists>q. nonempty_slot s q \<and> q \<notin> set (ranked s)"
proof (rule ccontr)
  assume "\<not> (\<exists>q. nonempty_slot s q \<and> q \<notin> set (ranked s))"
  then have sub: "set (filter (nonempty_slot s) (scan_order (numOffs_m s))) \<subseteq> set (ranked s)"
    by auto
  have "length (filter (nonempty_slot s) (scan_order (numOffs_m s))) =
      card (set (filter (nonempty_slot s) (scan_order (numOffs_m s))))"
    by (rule distinct_card [symmetric]) (simp add: distinct_scan_order)
  also have "\<dots> \<le> card (set (ranked s))"
    using sub by (intro card_mono) simp_all
  also have "\<dots> \<le> length (ranked s)" by (rule card_length)
  also have "\<dots> = length (rankOffs_m s)"
    using inv by (simp add: ranked_def sort_inv_def)
  finally show False using inv more by (simp add: sort_inv_def)
qed

text \<open>
  One round of the loop: either the selection finds nothing below \<open>0xFFFFFFFF\<close> and
  \<^verbatim>\<open>assert_neq\<close> fails, which needs a bucket of \<open>0xFFFFFFFF\<close> elements, or it ranks the
  \<open>rank_less\<close>-least of the slots still to rank.
\<close>

lemma sort_round_selects:
  assumes inv: "sort_inv s" and more: "length (rankOffs_m s) < unat (nonzTot_m s)"
  shows "(sort_round s = Inl AssertionFailed \<and> \<not> below_sentinel s) \<or>
         (\<exists>p. nonempty_slot s p \<and> p \<notin> set (ranked s) \<and>
           (\<forall>q. nonempty_slot s q \<and> q \<notin> set (ranked s) \<and> q \<noteq> p \<longrightarrow> rank_less s p q) \<and>
           sort_round s = Inr (push p s))"
proof -
  let ?n = "numOffs_m s"
  let ?xs = "scan_order ?n"
  let ?m0 = "(0xFFFFFFFF, True, 0) :: minimum"
  from inv have lens: "?n < 2 ^ 32" "length (hitsFw_m s) = ?n" "length (hitsRc_m s) = ?n"
    "length (sortedFw_m s) = ?n" "length (sortedRc_m s) = ?n"
    by (simp_all add: sort_inv_def)
  have fm: "find_min s = Inr (foldl (take_better s) ?m0 ?xs)"
    using lens by (rule find_min_pure)
  from inv have flags: "\<forall>p. snd p < ?n \<longrightarrow> slot_sorted s p = (p \<in> set (ranked s))"
    unfolding sort_inv_def by blast
  have cand: "candidate s q = (nonempty_slot s q \<and> q \<notin> set (ranked s))" if "snd q < ?n" for q
    using flags [rule_format, OF that] that by (auto simp: candidate_def nonempty_slot_def)
  from unranked_slot [OF inv more] obtain q0 where q0: "nonempty_slot s q0" "q0 \<notin> set (ranked s)"
    by blast
  then have q0n: "snd q0 < ?n" by (simp add: nonempty_slot_def)
  then have q0c: "candidate s q0" and q0x: "q0 \<in> set ?xs"
    using q0 by (simp_all add: cand set_scan_order)
  from first_minimum [of s ?m0 ?xs] show ?thesis
  proof
    assume "foldl (take_better s) ?m0 ?xs = ?m0 \<and>
      (\<forall>q\<in>set ?xs. candidate s q \<longrightarrow> fst ?m0 \<le> qv_numElts (bucket s q))"
    then have f: "foldl (take_better s) ?m0 ?xs = ?m0"
      and "0xFFFFFFFF \<le> qv_numElts (bucket s q0)"
      using q0c q0x by auto
    with uint32_max [of "qv_numElts (bucket s q0)"] have "qv_numElts (bucket s q0) = 0xFFFFFFFF"
      by simp
    with q0(1) q0x have "\<not> below_sentinel s"
      by (auto simp: below_sentinel_def list_all_iff)
    moreover have "sort_round s = Inl AssertionFailed"
      by (simp add: sort_round_def fm f push_rank_def)
    ultimately show ?thesis by simp
  next
    assume "\<exists>ys zs p. foldl (take_better s) ?m0 ?xs = (qv_numElts (bucket s p), p) \<and>
      ?xs = ys @ p # zs \<and> candidate s p \<and> qv_numElts (bucket s p) < fst ?m0 \<and>
      (\<forall>q\<in>set ys. candidate s q \<longrightarrow> qv_numElts (bucket s p) < qv_numElts (bucket s q)) \<and>
      (\<forall>q\<in>set zs. candidate s q \<longrightarrow> qv_numElts (bucket s p) \<le> qv_numElts (bucket s q))"
    then obtain ys zs p where f: "foldl (take_better s) ?m0 ?xs = (qv_numElts (bucket s p), p)"
      and xs: "?xs = ys @ p # zs" and pc: "candidate s p"
      and pk: "qv_numElts (bucket s p) < 0xFFFFFFFF"
      and ys: "\<forall>q\<in>set ys. candidate s q \<longrightarrow> qv_numElts (bucket s p) < qv_numElts (bucket s q)"
      and zs: "\<forall>q\<in>set zs. candidate s q \<longrightarrow> qv_numElts (bucket s p) \<le> qv_numElts (bucket s q)"
      by auto
    have "p \<in> set ?xs" by (simp add: xs)
    then have pn: "snd p < ?n" by (simp add: set_scan_order)
    with pc have pne: "nonempty_slot s p" and pnew: "p \<notin> set (ranked s)"
      by (simp_all add: cand)
    have before: "\<forall>q\<in>set zs. scanned_before p q"
      using sorted_scan_order [of ?n] by (simp add: xs sorted_wrt_append)
    have least: "rank_less s p q" if q: "nonempty_slot s q" "q \<notin> set (ranked s)" "q \<noteq> p" for q
    proof -
      from q(1) have qn: "snd q < ?n" by (simp add: nonempty_slot_def)
      with q have qc: "candidate s q" by (simp add: cand)
      from qn have "q \<in> set ?xs" by (simp add: set_scan_order)
      with q(3) have "q \<in> set ys \<or> q \<in> set zs" by (auto simp: xs)
      then show ?thesis
      proof
        assume "q \<in> set ys"
        with ys qc show ?thesis by (simp add: rank_less_def)
      next
        assume z: "q \<in> set zs"
        with zs qc have "qv_numElts (bucket s p) \<le> qv_numElts (bucket s q)" by simp
        moreover from z before have "scanned_before p q" by simp
        ultimately show ?thesis by (auto simp: rank_less_def order_le_less)
      qed
    qed
    have pl: "snd p < length (if fst p then sortedFw_m s else sortedRc_m s)"
      using pn lens by simp
    have "push_rank (qv_numElts (bucket s p), p) s = Inr (push p s)"
      using pk pl by (cases p) (simp add: push_rank_def push_def)
    then have "sort_round s = Inr (push p s)"
      by (simp add: sort_round_def fm f)
    with pne pnew least show ?thesis by blast
  qed
qed

lemma sort_inv_initial:
  assumes "sort_pre s"
  shows "sort_inv s"
proof -
  from assms have flags: "\<forall>p. snd p < numOffs_m s \<longrightarrow> slot_sorted s p = (p \<in> set (ranked s))"
    by (simp add: sort_pre_def slot_sorted_def ranked_def)
  from assms flags show ?thesis
    by (simp add: sort_pre_def sort_inv_def ranked_def)
qed

lemma nonempty_slots_filter:
  "{p. nonempty_slot s p} = set (filter (nonempty_slot s) (scan_order (numOffs_m s)))"
  by (auto simp: set_scan_order nonempty_slot_def)

lemma ranked_bounded:
  assumes "sort_inv s"
  shows "length (rankOffs_m s) \<le> unat (nonzTot_m s)"
proof -
  from assms have d: "distinct (ranked s)" and ne: "\<forall>p\<in>set (ranked s). nonempty_slot s p"
    and lens: "length (rankFws_m s) = length (rankOffs_m s)"
    and tot: "unat (nonzTot_m s) = length (filter (nonempty_slot s) (scan_order (numOffs_m s)))"
    unfolding sort_inv_def by blast+
  from ne have "set (ranked s) \<subseteq> set (filter (nonempty_slot s) (scan_order (numOffs_m s)))"
    unfolding nonempty_slots_filter [symmetric] by blast
  then have "card (set (ranked s)) \<le> card (set (filter (nonempty_slot s) (scan_order (numOffs_m s))))"
    by (intro card_mono) simp_all
  also have "\<dots> = length (filter (nonempty_slot s) (scan_order (numOffs_m s)))"
    by (rule distinct_card) (simp add: distinct_scan_order)
  finally have "card (set (ranked s)) \<le> unat (nonzTot_m s)" by (simp add: tot)
  moreover have "card (set (ranked s)) = length (ranked s)" using d by (rule distinct_card)
  moreover have "length (ranked s) = length (rankOffs_m s)" using lens by (simp add: ranked_def)
  ultimately show ?thesis by simp
qed

lemma only_ranks_changed_refl: "only_ranks_changed s s"
  by (simp add: only_ranks_changed_def)

lemma only_ranks_changed_push:
  assumes "only_ranks_changed (push p s) s'"
  shows "only_ranks_changed s s'"
proof -
  from assms have "s'\<lparr> sortedFw_m := sortedFw_m (push p s), sortedRc_m := sortedRc_m (push p s),
      rankOffs_m := rankOffs_m (push p s), rankFws_m := rankFws_m (push p s) \<rparr> = push p s"
    by (simp add: only_ranks_changed_def)
  then have "(s'\<lparr> sortedFw_m := sortedFw_m (push p s), sortedRc_m := sortedRc_m (push p s),
      rankOffs_m := rankOffs_m (push p s), rankFws_m := rankFws_m (push p s) \<rparr>)
      \<lparr> sortedFw_m := sortedFw_m s, sortedRc_m := sortedRc_m s, rankOffs_m := rankOffs_m s,
        rankFws_m := rankFws_m s \<rparr> =
      (push p s)\<lparr> sortedFw_m := sortedFw_m s, sortedRc_m := sortedRc_m s,
        rankOffs_m := rankOffs_m s, rankFws_m := rankFws_m s \<rparr>"
    by simp
  then show ?thesis
    by (simp add: only_ranks_changed_def push_def)
qed

lemma below_sentinel_push: "below_sentinel (push p s) = below_sentinel s"
  by (simp add: below_sentinel_def nonempty_slot_push bucket_push push_frame)

text \<open>The loop: what holds when it returns, and that it returns.\<close>

lemma sort_loop_correct:
  assumes "sort_inv s" and "sort_loop s = Inr s'"
  shows "sort_inv s' \<and> length (rankOffs_m s') = unat (nonzTot_m s') \<and> only_ranks_changed s s'"
  using assms
proof (induction s rule: sort_loop.induct)
  case (1 s)
  show ?case
  proof (cases "length (rankOffs_m s) < unat (nonzTot_m s)")
    case True
    from "1.prems"(2) True obtain s1 where round: "sort_round s = Inr s1"
      and rest: "sort_loop s1 = Inr s'"
      by (subst (asm) sort_loop.simps) (auto split: sum.splits)
    from sort_round_selects [OF "1.prems"(1) True] round obtain p
      where p: "nonempty_slot s p" "p \<notin> set (ranked s)"
        "\<forall>q. nonempty_slot s q \<and> q \<notin> set (ranked s) \<and> q \<noteq> p \<longrightarrow> rank_less s p q"
      and s1: "s1 = push p s"
      by auto
    have inv': "sort_inv s1"
      unfolding s1 using "1.prems"(1) p by (rule sort_inv_push)
    from "1.IH" [OF True round inv' rest]
    have "sort_inv s'" "length (rankOffs_m s') = unat (nonzTot_m s')" "only_ranks_changed s1 s'"
      by simp_all
    with only_ranks_changed_push [of p s s'] s1 show ?thesis by simp
  next
    case False
    with "1.prems"(2) have "s' = s"
      by (subst (asm) sort_loop.simps) simp
    moreover have "length (rankOffs_m s) = unat (nonzTot_m s)"
      using False ranked_bounded [OF "1.prems"(1)] by simp
    ultimately show ?thesis
      using "1.prems"(1) only_ranks_changed_refl by simp
  qed
qed

lemma sort_loop_returns:
  assumes "sort_inv s" and "below_sentinel s"
  shows "\<exists>s'. sort_loop s = Inr s'"
  using assms
proof (induction s rule: sort_loop.induct)
  case (1 s)
  show ?case
  proof (cases "length (rankOffs_m s) < unat (nonzTot_m s)")
    case True
    from sort_round_selects [OF "1.prems"(1) True] "1.prems"(2) obtain p
      where p: "nonempty_slot s p" "p \<notin> set (ranked s)"
        "\<forall>q. nonempty_slot s q \<and> q \<notin> set (ranked s) \<and> q \<noteq> p \<longrightarrow> rank_less s p q"
      and round: "sort_round s = Inr (push p s)"
      by auto
    have inv': "sort_inv (push p s)"
      using "1.prems"(1) p by (rule sort_inv_push)
    have "below_sentinel (push p s)"
      using "1.prems"(2) by (simp add: below_sentinel_push)
    from "1.IH" [OF True round inv' this] obtain s' where "sort_loop (push p s) = Inr s'"
      by blast
    moreover have "sort_loop s = sort_loop (push p s)"
      using True round by (subst sort_loop.simps) simp
    ultimately show ?thesis by simp
  next
    case False
    then have "sort_loop s = Inr s"
      by (subst sort_loop.simps) simp
    then show ?thesis by simp
  qed
qed

lemma only_ranks_changed_fields:
  assumes "only_ranks_changed s s'"
  shows "hitsFw_m s' = hitsFw_m s" "hitsRc_m s' = hitsRc_m s" "numOffs_m s' = numOffs_m s"
    "nonzTot_m s' = nonzTot_m s" "offIdx2off_m s' = offIdx2off_m s" "sorted_m s' = sorted_m s"
proof -
  let ?t = "s'\<lparr> sortedFw_m := sortedFw_m s, sortedRc_m := sortedRc_m s, rankOffs_m := rankOffs_m s,
         rankFws_m := rankFws_m s \<rparr>"
  from assms have e: "?t = s" by (simp add: only_ranks_changed_def)
  have "hitsFw_m ?t = hitsFw_m s'" "hitsRc_m ?t = hitsRc_m s'" "numOffs_m ?t = numOffs_m s'"
    "nonzTot_m ?t = nonzTot_m s'" "offIdx2off_m ?t = offIdx2off_m s'" "sorted_m ?t = sorted_m s'"
    by simp_all
  then show "hitsFw_m s' = hitsFw_m s" "hitsRc_m s' = hitsRc_m s" "numOffs_m s' = numOffs_m s"
    "nonzTot_m s' = nonzTot_m s" "offIdx2off_m s' = offIdx2off_m s" "sorted_m s' = sorted_m s"
    unfolding e by simp_all
qed

lemma sort_loop_ranks:
  assumes "sort_pre s" and "sort_loop s = Inr s'"
  shows "only_ranks_changed s s' \<and>
           length (rankFws_m s') = unat (nonzTot_m s) \<and>
           length (rankOffs_m s') = unat (nonzTot_m s) \<and>
           distinct (ranked s') \<and> set (ranked s') = {p. nonempty_slot s p} \<and>
           sorted_wrt (rank_less s) (ranked s')"
proof -
  from sort_loop_correct [OF sort_inv_initial [OF assms(1)] assms(2)]
  have s': "sort_inv s'" "length (rankOffs_m s') = unat (nonzTot_m s')"
      "only_ranks_changed s s'"
    by simp_all
  note f = only_ranks_changed_fields [OF s'(3)]
  have b: "bucket s' = bucket s" by (rule ext) (simp add: bucket_def f)
  then have ne: "nonempty_slot s' = nonempty_slot s"
    by (intro ext) (simp add: nonempty_slot_def f)
  from b have rl: "rank_less s' = rank_less s"
    by (intro ext) (simp add: rank_less_def)
  from s'(1) have d: "distinct (ranked s')" and sub: "set (ranked s') \<subseteq> {p. nonempty_slot s p}"
    and srt: "sorted_wrt (rank_less s) (ranked s')"
    and lens: "length (rankFws_m s') = length (rankOffs_m s')"
    and tot: "unat (nonzTot_m s') = length (filter (nonempty_slot s) (scan_order (numOffs_m s)))"
    by (auto simp: sort_inv_def ne rl f)
  have "card (set (ranked s')) = length (ranked s')"
    using d by (rule distinct_card)
  also have "\<dots> = unat (nonzTot_m s')" using lens s'(2) by (simp add: ranked_def)
  also have "\<dots> = card {p. nonempty_slot s p}"
    unfolding tot nonempty_slots_filter
    by (rule distinct_card [symmetric]) (simp add: distinct_scan_order)
  finally have "card (set (ranked s')) = card {p. nonempty_slot s p}" .
  moreover have "finite {p. nonempty_slot s p}"
    unfolding nonempty_slots_filter by simp
  ultimately have "set (ranked s') = {p. nonempty_slot s p}"
    using sub by (intro card_subset_eq)
  with s' d srt lens f show ?thesis by auto
qed

lemma sort_result:
  assumes "sort_pre s" and "SeedResults_sort s = Inr s'"
  shows "sorted_m s'" and "hitsFw_m s' = hitsFw_m s" and "hitsRc_m s' = hitsRc_m s"
    and "numOffs_m s' = numOffs_m s" and "nonzTot_m s' = nonzTot_m s"
    and "offIdx2off_m s' = offIdx2off_m s"
    and "length (rankFws_m s') = unat (nonzTot_m s)"
    and "length (rankOffs_m s') = unat (nonzTot_m s)"
    and "distinct (ranked s')" and "set (ranked s') = {p. nonempty_slot s p}"
    and "sorted_wrt (rank_less s) (ranked s')"
proof -
  from assms(2) obtain t where t: "sort_loop s = Inr t" and s': "s' = t\<lparr> sorted_m := True \<rparr>"
    by (auto simp: SeedResults_sort_def split: sum.splits if_splits)
  from sort_loop_ranks [OF assms(1) t]
  have r: "only_ranks_changed s t" "length (rankFws_m t) = unat (nonzTot_m s)"
    "length (rankOffs_m t) = unat (nonzTot_m s)" "distinct (ranked t)"
    "set (ranked t) = {p. nonempty_slot s p}" "sorted_wrt (rank_less s) (ranked t)"
    by simp_all
  note f = only_ranks_changed_fields [OF r(1)]
  have rk: "ranked s' = ranked t" by (simp add: s' ranked_def)
  show "sorted_m s'" and "hitsFw_m s' = hitsFw_m s" and "hitsRc_m s' = hitsRc_m s"
    and "numOffs_m s' = numOffs_m s" and "nonzTot_m s' = nonzTot_m s"
    and "offIdx2off_m s' = offIdx2off_m s"
    and "length (rankFws_m s') = unat (nonzTot_m s)"
    and "length (rankOffs_m s') = unat (nonzTot_m s)"
    and "distinct (ranked s')" and "set (ranked s') = {p. nonempty_slot s p}"
    and "sorted_wrt (rank_less s) (ranked s')"
    using r f by (simp_all add: rk) (simp_all add: s')
qed

lemma sort_returns:
  assumes "sort_pre s" and "below_sentinel s"
  shows "\<exists>s'. SeedResults_sort s = Inr s'"
proof -
  from sort_loop_returns [OF sort_inv_initial [OF assms(1)] assms(2)] obtain t
    where t: "sort_loop s = Inr t" by blast
  from sort_loop_ranks [OF assms(1) t] have "length (rankOffs_m t) = length (rankFws_m t)"
    by simp
  with t show ?thesis by (simp add: SeedResults_sort_def)
qed

lemma hitsByRank_Inr:
  assumes "hitsByRank r s = Inr (q, i, off, fw)"
  shows "r < unat (nonzTot_m s)" and "r < length (rankFws_m s)" and "r < length (rankOffs_m s)"
    and "(fw, i) = ranked s ! r" and "q = bucket s (ranked s ! r)"
  using assms
  by (auto simp: hitsByRank_def ranked_def bucket_def split: if_splits)

lemma hitsByRank_ranked:
  assumes "sorted_m s" and "r < unat (nonzTot_m s)" and "length (rankFws_m s) = unat (nonzTot_m s)"
    and "length (rankOffs_m s) = unat (nonzTot_m s)" and "nonempty_slot s (ranked s ! r)"
    and "length (hitsFw_m s) = numOffs_m s" and "length (hitsRc_m s) = numOffs_m s"
    and "numOffs_m s \<le> length (offIdx2off_m s)"
  shows "hitsByRank r s = Inr (bucket s (ranked s ! r), snd (ranked s ! r),
           offIdx2off_m s ! snd (ranked s ! r), fst (ranked s ! r))"
  using assms
  by (simp add: hitsByRank_def ranked_def bucket_def nonempty_slot_def)

lemma scanned_before_asym: "scanned_before p q \<Longrightarrow> \<not> scanned_before q p"
  by (auto simp: scanned_before_def)

lemma rank_less_elts: "rank_less s p q \<Longrightarrow> qv_numElts (bucket s p) \<le> qv_numElts (bucket s q)"
  by (auto simp: rank_less_def)

subsection \<open>Concrete calls of sort\<close>

lemmas sort_eval = SeedResults_sort_def sort_loop.simps sort_round_def push_rank_def find_min_def
  scan_bucket_def upt_rec

lemma sort_filled2: "SeedResults_sort filled2 = Inr sorted2"
  by (simp add: sort_eval sorted2_def concrete_defs)

lemma run_tied1:
  "run_calls [Reset 1 [0] 1, Add (qval 1 4) any_cache 0 True 20,
      Add (qval 1 4) any_cache 0 False 20] blank = Inr tied1"
  by (simp add: run_eval tied1_def concrete_defs)

lemma sort_tied1: "SeedResults_sort tied1 = Inr tied1_sorted"
  by (simp add: sort_eval tied1_sorted_def tied1_def concrete_defs)

lemma add_refilled2: "add (qval 1 1) any_cache 1 True 20 sorted2 = Inr refilled2"
  by (simp add: run_eval refilled2_def sorted2_def concrete_defs)

lemma sort_refilled2: "SeedResults_sort refilled2 = Inr resorted2"
  by (simp add: sort_eval resorted2_def refilled2_def sorted2_def concrete_defs)

lemma run_late1:
  "run_calls [Reset 1 [0, 10] 2, Add (qval 1 4) any_cache 1 True 20] blank = Inr late1"
  by (simp add: run_eval late1_def concrete_defs)

lemma sort_late1: "SeedResults_sort late1 = Inr late1_sorted"
  by (simp add: sort_eval late1_sorted_def late1_def concrete_defs)

lemma add_late2: "add (qval 1 4) any_cache 0 True 20 late1_sorted = Inr late2"
  by (simp add: run_eval late2_def late1_sorted_def late1_def concrete_defs)

lemma sort_late2: "SeedResults_sort late2 = Inr late2_sorted"
  by (simp add: sort_eval late2_sorted_def late2_def late1_sorted_def late1_def concrete_defs)

subsection \<open>From reset and add to the state in which sort is called\<close>

lemma count_nonempty_slots:
  "length (filter (nonempty_slot s) (scan_order (numOffs_m s))) =
     length (filter (\<lambda>i. qv_valid (hitsRc_m s ! i) \<and> 0 < qv_numElts (hitsRc_m s ! i)) [0..<numOffs_m s]) +
     length (filter (\<lambda>i. qv_valid (hitsFw_m s ! i) \<and> 0 < qv_numElts (hitsFw_m s ! i)) [0..<numOffs_m s])"
proof -
  have rc: "filter (nonempty_slot s \<circ> Pair False) [0..<numOffs_m s] =
      filter (\<lambda>i. qv_valid (hitsRc_m s ! i) \<and> 0 < qv_numElts (hitsRc_m s ! i)) [0..<numOffs_m s]"
    by (rule filter_cong) (auto simp: nonempty_slot_def bucket_def)
  have fw: "filter (nonempty_slot s \<circ> Pair True) [0..<numOffs_m s] =
      filter (\<lambda>i. qv_valid (hitsFw_m s ! i) \<and> 0 < qv_numElts (hitsFw_m s ! i)) [0..<numOffs_m s]"
    by (rule filter_cong) (auto simp: nonempty_slot_def bucket_def)
  show ?thesis
    by (simp add: scan_order_def filter_map rc fw)
qed

lemma sort_pre_reset:
  assumes "SeedResults_reset r off n s = Inr s'" and "n < 2 ^ 32"
  shows "sort_pre s'"
proof -
  from assms(1) have s': "s' = (SeedResults_clear s)
             \<lparr> numOffs_m := n, hitsFw_m := replicate n QVal_reset,
               hitsRc_m := replicate n QVal_reset, sortedFw_m := replicate n False,
               sortedRc_m := replicate n False, offIdx2off_m := off, read_m := Some r,
               sorted_m := False \<rparr>"
    by (auto simp: SeedResults_reset_def split: if_splits)
  have ne: "\<not> nonempty_slot s' p" for p
    by (auto simp: s' nonempty_slot_def bucket_def QVal_reset_def)
  show ?thesis
    using assms(2) by (simp add: sort_pre_def ne) (simp add: s' SeedResults_clear_def)
qed

lemma sort_pre_add_upd:
  assumes pre: "sort_pre s" and qv: "QVal_repOk ac qv"
    and i: "i < length (if seedFw then hitsFw_m s else hitsRc_m s)"
    and fresh: "\<not> qv_valid ((if seedFw then hitsFw_m s else hitsRc_m s) ! i)"
  shows "sort_pre (add_upd qv i seedFw s)"
proof -
  let ?s' = "add_upd qv i seedFw s"
  let ?n = "numOffs_m s"
  let ?P = "\<lambda>q. qv_valid q \<and> 0 < qv_numElts q"
  let ?z = "(if 0 < qv_numRanges qv then 1 else 0) :: nat"
  from pre have len: "length (hitsFw_m s) = ?n" "length (hitsRc_m s) = ?n"
    and tot: "unat (nonzTot_m s) = length (filter (nonempty_slot s) (scan_order ?n))"
    and n: "?n < 2 ^ 32"
    by (simp_all add: sort_pre_def)
  from i len have i': "i < ?n" by (simp split: if_splits)
  note q = QVal_repOk_counts [OF qv]
  have Pqv: "(if ?P qv then 1 else 0) = ?z"
    using q(1,4) by simp
  have upd: "length (filter (\<lambda>j. ?P ((if seedFw then hitsFw_m s else hitsRc_m s)[i := qv] ! j)) [0..<?n]) =
      length (filter (\<lambda>j. ?P ((if seedFw then hitsFw_m s else hitsRc_m s) ! j)) [0..<?n]) + ?z"
    using filter_upt_update [OF i' i, of ?P qv] fresh by (simp only: Pqv) simp
  have count: "length (filter (nonempty_slot ?s') (scan_order (numOffs_m ?s'))) =
      length (filter (nonempty_slot s) (scan_order ?n)) + ?z"
  proof (cases seedFw)
    case True
    then have hf: "hitsFw_m ?s' = (hitsFw_m s)[i := qv]" "hitsRc_m ?s' = hitsRc_m s"
      "numOffs_m ?s' = ?n"
      by (simp_all add: add_upd_frame)
    from upd True
    have h: "length (filter (\<lambda>j. ?P ((hitsFw_m s)[i := qv] ! j)) [0..<?n]) =
        length (filter (\<lambda>j. ?P (hitsFw_m s ! j)) [0..<?n]) + ?z"
      by simp
    have "length (filter (nonempty_slot ?s') (scan_order (numOffs_m ?s'))) =
        length (filter (\<lambda>j. ?P (hitsRc_m ?s' ! j)) [0..<numOffs_m ?s']) +
        length (filter (\<lambda>j. ?P (hitsFw_m ?s' ! j)) [0..<numOffs_m ?s'])"
      by (rule count_nonempty_slots)
    also have "\<dots> = length (filter (\<lambda>j. ?P (hitsRc_m s ! j)) [0..<?n]) +
        (length (filter (\<lambda>j. ?P (hitsFw_m s ! j)) [0..<?n]) + ?z)"
      by (simp only: hf h)
    also have "\<dots> = length (filter (nonempty_slot s) (scan_order ?n)) + ?z"
      by (simp add: count_nonempty_slots [of s])
    finally show ?thesis .
  next
    case False
    then have hf: "hitsFw_m ?s' = hitsFw_m s" "hitsRc_m ?s' = (hitsRc_m s)[i := qv]"
      "numOffs_m ?s' = ?n"
      by (simp_all add: add_upd_frame)
    from upd False
    have h: "length (filter (\<lambda>j. ?P ((hitsRc_m s)[i := qv] ! j)) [0..<?n]) =
        length (filter (\<lambda>j. ?P (hitsRc_m s ! j)) [0..<?n]) + ?z"
      by simp
    have "length (filter (nonempty_slot ?s') (scan_order (numOffs_m ?s'))) =
        length (filter (\<lambda>j. ?P (hitsRc_m ?s' ! j)) [0..<numOffs_m ?s']) +
        length (filter (\<lambda>j. ?P (hitsFw_m ?s' ! j)) [0..<numOffs_m ?s'])"
      by (rule count_nonempty_slots)
    also have "\<dots> = (length (filter (\<lambda>j. ?P (hitsRc_m s ! j)) [0..<?n]) + ?z) +
        length (filter (\<lambda>j. ?P (hitsFw_m s ! j)) [0..<?n])"
      by (simp only: hf h)
    also have "\<dots> = length (filter (nonempty_slot s) (scan_order ?n)) + ?z"
      by (simp add: count_nonempty_slots [of s])
    finally show ?thesis .
  qed
  have "length (filter (nonempty_slot s) (scan_order ?n)) \<le> length (scan_order ?n)"
    by (rule length_filter_le)
  also have "\<dots> = 2 * ?n" by (simp add: scan_order_def)
  finally have "unat (nonzTot_m s) \<le> 2 * ?n" by (simp add: tot)
  with n have "unat (nonzTot_m s) + unat ((if 0 < qv_numRanges qv then 1 else 0) :: size_t)
      < 2 ^ LENGTH(64)"
    by simp
  then have "unat (nonzTot_m s + (if 0 < qv_numRanges qv then 1 else 0)) =
      unat (nonzTot_m s) + unat ((if 0 < qv_numRanges qv then 1 else 0) :: size_t)"
    by (rule unat_add_lem [THEN iffD1])
  then have nz: "unat (nonzTot_m ?s') = unat (nonzTot_m s) + ?z"
    by (simp add: add_upd_counters)
  from pre count tot nz show ?thesis
    by (simp add: sort_pre_def add_upd_frame split: if_splits)
qed

lemma sort_pre_add:
  assumes "sort_pre s" and run: "add qv ac seedIdx seedFw seedLen s = Inr s'"
  shows "sort_pre s'"
proof (cases "qv_empty qv")
  case True
  with add_Inr(4) [OF run] assms(1) show ?thesis by simp
next
  case False
  with add_Inr(5) [OF run] have "s' = add_upd qv (unat seedIdx) seedFw s"
    and "unat seedIdx < length (if seedFw then hitsFw_m s else hitsRc_m s)"
    and "\<not> qv_valid ((if seedFw then hitsFw_m s else hitsRc_m s) ! unat seedIdx)"
    by simp_all
  with assms(1) add_Inr(1) [OF run] show ?thesis by (simp add: sort_pre_add_upd)
qed

lemma sort_pre_adds:
  assumes "sort_pre s" and "run_calls (map add_call adds) s = Inr s'"
  shows "sort_pre s' \<and> offIdx2off_m s' = offIdx2off_m s \<and> numOffs_m s' = numOffs_m s"
  using assms
proof (induction adds arbitrary: s)
  case Nil
  then show ?case by simp
next
  case (Cons a adds)
  obtain qv ac seedIdx seedFw seedLen where a: "a = (qv, ac, seedIdx, seedFw, seedLen)"
    by (cases a) auto
  from Cons.prems(2) obtain s1 where s1: "add qv ac seedIdx seedFw seedLen s = Inr s1"
    and rest: "run_calls (map add_call adds) s1 = Inr s'"
    by (auto simp: a split: sum.splits)
  have p1: "sort_pre s1" using Cons.prems(1) s1 by (rule sort_pre_add)
  have "offIdx2off_m s1 = offIdx2off_m s \<and> numOffs_m s1 = numOffs_m s"
    using add_Inr(4,5) [OF s1] by (cases "qv_empty qv") (simp_all add: add_upd_frame)
  with Cons.IH [OF p1 rest] show ?case by simp
qed

lemma sort_pre_after_calls:
  assumes "run_calls (Reset rd off n # map add_call adds) s0 = Inr s" and "n < 2 ^ 32"
  shows "sort_pre s" and "offIdx2off_m s = off" and "numOffs_m s = n"
proof -
  from assms(1) obtain s1 where s1: "SeedResults_reset rd off n s0 = Inr s1"
    and rest: "run_calls (map add_call adds) s1 = Inr s"
    by (auto split: sum.splits)
  from s1 assms(2) have "sort_pre s1" by (rule sort_pre_reset)
  from sort_pre_adds [OF this rest] s1
  show "sort_pre s" and "offIdx2off_m s = off" and "numOffs_m s = n"
    by (auto simp: SeedResults_reset_def split: if_splits)
qed

lemma calls_filled2:
  "run_calls (Reset 1 [0, 10] 2 # map add_call [(qval 1 5, any_cache, 0, True, 20),
      (qval 2 3, any_cache, 0, False, 20), (qval 0 0, any_cache, 1, True, 20),
      (qval 1 3, any_cache, 1, False, 20)]) blank = Inr filled2"
  using run_filled2 by simp

lemma calls_tied1:
  "run_calls (Reset 1 [0] 1 # map add_call [(qval 1 4, any_cache, 0, True, 20),
      (qval 1 4, any_cache, 0, False, 20)]) blank = Inr tied1"
  using run_tied1 by simp

subsection \<open>The claims about sort\<close>

text \<open>
  C3 as stated fails for a \<^verbatim>\<open>sort()\<close> that is not the first one since \<^verbatim>\<open>reset\<close>. \<^verbatim>\<open>sort\<close>
  keeps the ranks of an earlier call and appends the buckets added since. After \<^verbatim>\<open>reset\<close>
  with two offsets, buckets of 5, 3 and 3 elements, \<^verbatim>\<open>sort()\<close>, one more bucket of 1
  element and \<^verbatim>\<open>sort()\<close> again, every call returns, \<^verbatim>\<open>nonzeroOffsets()\<close> is 4, and rank 2
  holds 5 elements while rank 3 holds 1.
\<close>

theorem sort_again_not_sorted:
  "run_calls [Reset 1 [0, 10] 2, Add (qval 1 5) any_cache 0 True 20,
      Add (qval 2 3) any_cache 0 False 20, Add (qval 0 0) any_cache 1 True 20,
      Add (qval 1 3) any_cache 1 False 20] blank = Inr filled2 \<and>
   SeedResults_sort filled2 = Inr sorted2 \<and>
   add (qval 1 1) any_cache 1 True 20 sorted2 = Inr refilled2 \<and>
   SeedResults_sort refilled2 = Inr resorted2 \<and>
   nonzeroOffsets resorted2 = Inr 4 \<and>
   hitsByRank 2 resorted2 = Inr (qval 1 5, 0, 0, True) \<and>
   hitsByRank 3 resorted2 = Inr (qval 1 1, 1, 10, True) \<and>
   \<not> qv_numElts (qval 1 5) \<le> qv_numElts (qval 1 1)"
proof -
  have "nonzeroOffsets resorted2 = Inr 4"
    "hitsByRank 2 resorted2 = Inr (qval 1 5, 0, 0, True)"
    "hitsByRank 3 resorted2 = Inr (qval 1 1, 1, 10, True)"
    "\<not> qv_numElts (qval 1 5) \<le> qv_numElts (qval 1 1)"
    by (simp_all add: nonzeroOffsets_def hitsByRank_def resorted2_def refilled2_def sorted2_def
        concrete_defs word_le_nat_alt)
  with run_filled2 sort_filled2 add_refilled2 sort_refilled2 show ?thesis by (intro conjI)
qed

text \<open>
  C3, amended. After \<^verbatim>\<open>reset\<close> with fewer than \<open>2 ^ 32\<close> offsets (the loop index of \<^verbatim>\<open>sort\<close>
  is a \<^verbatim>\<open>uint32_t\<close>), calls of \<^verbatim>\<open>add\<close> only, and then one \<^verbatim>\<open>sort()\<close>: \<^verbatim>\<open>sort()\<close> returns when
  no bucket has \<open>0xFFFFFFFF\<close> elements; and when it has returned, the buckets are as they
  were, \<^verbatim>\<open>nonzeroOffsets()\<close> is \<^verbatim>\<open>nonzTot_\<close>, the ranks \<open>0 .. nonzeroOffsets() - 1\<close> hold each
  bucket with a valid \<open>QVal\<close> of at least one element exactly once (the ranked pairs of
  orientation and offset index are distinct and their set is the set of these buckets),
  \<^verbatim>\<open>numElts\<close> does not decrease from \<^verbatim>\<open>hitsByRank(r)\<close> to \<^verbatim>\<open>hitsByRank(r + 1)\<close>, and, when the
  offset table given to \<^verbatim>\<open>reset\<close> has an entry for every offset, \<^verbatim>\<open>hitsByRank(r)\<close> returns
  the bucket ranked \<open>r\<close> for every rank.
\<close>

theorem sort_nondecreasing_permutation:
  assumes calls: "run_calls (Reset rd off n # map add_call adds) s0 = Inr s"
    and n: "n < 2 ^ 32"
  shows "(below_sentinel s \<longrightarrow> (\<exists>s'. SeedResults_sort s = Inr s')) \<and>
     (\<forall>s'. SeedResults_sort s = Inr s' \<longrightarrow>
        hitsFw_m s' = hitsFw_m s \<and> hitsRc_m s' = hitsRc_m s \<and>
        nonzeroOffsets s' = Inr (nonzTot_m s) \<and>
        length (ranked s') = unat (nonzTot_m s) \<and>
        distinct (ranked s') \<and>
        set (ranked s') =
          {p. snd p < numOffs_m s' \<and> qv_valid (bucket s' p) \<and> 0 < qv_numElts (bucket s' p)} \<and>
        (\<forall>r q1 t1 q2 t2.
           hitsByRank r s' = Inr (q1, t1) \<and> hitsByRank (Suc r) s' = Inr (q2, t2) \<longrightarrow>
           qv_numElts q1 \<le> qv_numElts q2) \<and>
        (n \<le> length off \<longrightarrow>
           (\<forall>r. r < unat (nonzTot_m s) \<longrightarrow>
              hitsByRank r s' = Inr (bucket s' (ranked s' ! r), snd (ranked s' ! r),
                 off ! snd (ranked s' ! r), fst (ranked s' ! r)))))"
proof (intro conjI allI impI)
  note pre = sort_pre_after_calls [OF calls n]
  show "\<exists>s'. SeedResults_sort s = Inr s'" if "below_sentinel s"
    using pre(1) that by (rule sort_returns)
  fix s'
  assume run: "SeedResults_sort s = Inr s'"
  note f = sort_result [OF pre(1) run]
  have b: "bucket s' = bucket s" by (rule ext) (simp add: bucket_def f)
  then have ne: "nonempty_slot s' = nonempty_slot s"
    by (intro ext) (simp add: nonempty_slot_def f)
  from pre(1) have hl: "length (hitsFw_m s) = numOffs_m s" "length (hitsRc_m s) = numOffs_m s"
    by (simp_all add: sort_pre_def)
  show "hitsFw_m s' = hitsFw_m s" and "hitsRc_m s' = hitsRc_m s" by (rule f)+
  show lr: "length (ranked s') = unat (nonzTot_m s)"
    using f(7,8) by (simp add: ranked_def)
  show "nonzeroOffsets s' = Inr (nonzTot_m s)"
    using f by (simp add: nonzeroOffsets_def)
  show "distinct (ranked s')" by (rule f)
  show "set (ranked s') =
      {p. snd p < numOffs_m s' \<and> qv_valid (bucket s' p) \<and> 0 < qv_numElts (bucket s' p)}"
    using f(10) by (simp add: ne [symmetric] nonempty_slot_def)
  show "qv_numElts q1 \<le> qv_numElts q2"
    if h: "hitsByRank r s' = Inr (q1, t1) \<and> hitsByRank (Suc r) s' = Inr (q2, t2)"
    for r q1 t1 q2 t2
  proof -
    obtain i1 o1 fw1 where t1: "t1 = (i1, o1, fw1)" by (cases t1) auto
    obtain i2 o2 fw2 where t2: "t2 = (i2, o2, fw2)" by (cases t2) auto
    note a1 = hitsByRank_Inr [OF h [THEN conjunct1, unfolded t1]]
      and a2 = hitsByRank_Inr [OF h [THEN conjunct2, unfolded t2]]
    from a2(1) f(5) lr have "Suc r < length (ranked s')" by simp
    with f(11) have "rank_less s (ranked s' ! r) (ranked s' ! Suc r)"
      by (simp add: sorted_wrt_iff_nth_less)
    then have "qv_numElts (bucket s (ranked s' ! r)) \<le> qv_numElts (bucket s (ranked s' ! Suc r))"
      by (rule rank_less_elts)
    then show ?thesis by (simp add: a1(5) a2(5) b)
  qed
  show "hitsByRank r s' = Inr (bucket s' (ranked s' ! r), snd (ranked s' ! r),
           off ! snd (ranked s' ! r), fst (ranked s' ! r))"
    if offs: "n \<le> length off" and r: "r < unat (nonzTot_m s)" for r
  proof -
    from r lr have "ranked s' ! r \<in> set (ranked s')" by simp
    with f(10) have "nonempty_slot s' (ranked s' ! r)" by (simp add: ne)
    with r f hl offs pre(2,3)
    have "hitsByRank r s' = Inr (bucket s' (ranked s' ! r), snd (ranked s' ! r),
           offIdx2off_m s' ! snd (ranked s' ! r), fst (ranked s' ! r))"
      by (intro hitsByRank_ranked) simp_all
    then show ?thesis by (simp add: f pre)
  qed
qed

theorem sort_nondecreasing_permutation_witness:
  "run_calls (Reset 1 [0, 10] 2 # map add_call [(qval 1 5, any_cache, 0, True, 20),
      (qval 2 3, any_cache, 0, False, 20), (qval 0 0, any_cache, 1, True, 20),
      (qval 1 3, any_cache, 1, False, 20)]) blank = Inr filled2 \<and>
   (2 :: nat) < 2 ^ 32 \<and> below_sentinel filled2 \<and> (2 :: nat) \<le> length [0 :: uint32, 10] \<and>
   SeedResults_sort filled2 = Inr sorted2 \<and>
   nonzeroOffsets sorted2 = Inr 3 \<and>
   ranked sorted2 = [(False, 0), (False, 1), (True, 0)] \<and>
   set (ranked sorted2) =
     {p. snd p < numOffs_m sorted2 \<and> qv_valid (bucket sorted2 p) \<and>
         0 < qv_numElts (bucket sorted2 p)} \<and>
   hitsByRank 0 sorted2 = Inr (qval 2 3, 0, 0, False) \<and>
   hitsByRank 1 sorted2 = Inr (qval 1 3, 1, 10, False) \<and>
   hitsByRank 2 sorted2 = Inr (qval 1 5, 0, 0, True) \<and>
   qv_numElts (qval 2 3) \<le> qv_numElts (qval 1 3) \<and>
   qv_numElts (qval 1 3) \<le> qv_numElts (qval 1 5)"
proof -
  have n: "(2 :: nat) < 2 ^ 32" by simp
  have o: "(2 :: nat) \<le> length [0 :: uint32, 10]" by simp
  have b: "below_sentinel filled2"
    by (simp add: below_sentinel_def scan_order_def nonempty_slot_def bucket_def concrete_defs
        upt_rec)
  have r: "ranked sorted2 = [(False, 0), (False, 1), (True, 0)]"
    by (simp add: ranked_def sorted2_def)
  have h: "hitsByRank 0 sorted2 = Inr (qval 2 3, 0, 0, False)"
    "hitsByRank 1 sorted2 = Inr (qval 1 3, 1, 10, False)"
    "hitsByRank 2 sorted2 = Inr (qval 1 5, 0, 0, True)"
    by (simp_all add: hitsByRank_def sorted2_def concrete_defs)
  note t = sort_nondecreasing_permutation [OF calls_filled2 n]
  from t sort_filled2 have nz: "nonzeroOffsets sorted2 = Inr (nonzTot_m filled2)"
    and perm: "set (ranked sorted2) =
     {p. snd p < numOffs_m sorted2 \<and> qv_valid (bucket sorted2 p) \<and>
         0 < qv_numElts (bucket sorted2 p)}"
    and up: "\<forall>r q1 t1 q2 t2.
           hitsByRank r sorted2 = Inr (q1, t1) \<and> hitsByRank (Suc r) sorted2 = Inr (q2, t2) \<longrightarrow>
           qv_numElts q1 \<le> qv_numElts q2"
    by blast+
  from nz have nz': "nonzeroOffsets sorted2 = Inr 3" by (simp add: concrete_defs)
  from up h(1,2) have le1: "qv_numElts (qval 2 3) \<le> qv_numElts (qval 1 3)"
    by (metis One_nat_def)
  have "hitsByRank (Suc 1) sorted2 = Inr (qval 1 5, 0, 0, True)"
    using h(3) by (simp add: numeral_2_eq_2)
  with up h(2) have le2: "qv_numElts (qval 1 3) \<le> qv_numElts (qval 1 5)"
    by blast
  from calls_filled2 n b o sort_filled2 nz' r perm h le1 le2 show ?thesis by (intro conjI)
qed

text \<open>
  C2 as stated fails. With one offset, a forward bucket of 4 elements added first and a
  reverse-complement bucket of 4 elements added second, \<^verbatim>\<open>sort()\<close> ranks the
  reverse-complement bucket first: the loop over \<^verbatim>\<open>fw\<close> starts at 0, which selects
  \<^verbatim>\<open>hitsRc_\<close>, and a later bucket replaces the minimum only when it is strictly smaller.
  And a \<^verbatim>\<open>sort()\<close> that is not the first one since \<^verbatim>\<open>reset\<close> keeps the earlier ranks: with
  two offsets, forward bucket 1 added (4 elements), \<^verbatim>\<open>sort()\<close>, forward bucket 0 added (4
  elements) and \<^verbatim>\<open>sort()\<close> again, offset index 1 is ranked before offset index 0.
\<close>

theorem sort_forward_not_first:
  "run_calls [Reset 1 [0] 1, Add (qval 1 4) any_cache 0 True 20,
      Add (qval 1 4) any_cache 0 False 20] blank = Inr tied1 \<and>
   SeedResults_sort tied1 = Inr tied1_sorted \<and>
   hitsByRank 0 tied1_sorted = Inr (qval 1 4, 0, 0, False) \<and>
   hitsByRank 1 tied1_sorted = Inr (qval 1 4, 0, 0, True) \<and>
   run_calls [Reset 1 [0, 10] 2, Add (qval 1 4) any_cache 1 True 20] blank = Inr late1 \<and>
   SeedResults_sort late1 = Inr late1_sorted \<and>
   add (qval 1 4) any_cache 0 True 20 late1_sorted = Inr late2 \<and>
   SeedResults_sort late2 = Inr late2_sorted \<and>
   hitsByRank 0 late2_sorted = Inr (qval 1 4, 1, 10, True) \<and>
   hitsByRank 1 late2_sorted = Inr (qval 1 4, 0, 0, True)"
proof -
  have "hitsByRank 0 tied1_sorted = Inr (qval 1 4, 0, 0, False)"
    "hitsByRank 1 tied1_sorted = Inr (qval 1 4, 0, 0, True)"
    by (simp_all add: hitsByRank_def tied1_sorted_def tied1_def concrete_defs)
  moreover have "hitsByRank 0 late2_sorted = Inr (qval 1 4, 1, 10, True)"
    "hitsByRank 1 late2_sorted = Inr (qval 1 4, 0, 0, True)"
    by (simp_all add: hitsByRank_def late2_sorted_def late2_def late1_sorted_def late1_def
        concrete_defs)
  ultimately show ?thesis
    using run_tied1 sort_tied1 run_late1 sort_late1 add_late2 sort_late2 by (intro conjI)
qed

text \<open>
  C2, amended. After \<^verbatim>\<open>reset\<close> with fewer than \<open>2 ^ 32\<close> offsets, calls of \<^verbatim>\<open>add\<close> only, and
  then one \<^verbatim>\<open>sort()\<close> that has returned, ties are ranked in the order of the scan, not of
  insertion: whenever two ranked buckets have equal \<^verbatim>\<open>numElts\<close>, the reverse-complement one
  is ranked before the forward one, and of two buckets of the same orientation the one
  with the lower offset index is ranked first.
\<close>

theorem sort_ties_in_scan_order:
  assumes calls: "run_calls (Reset rd off n # map add_call adds) s0 = Inr s"
    and n: "n < 2 ^ 32"
    and run: "SeedResults_sort s = Inr s'"
    and h1: "hitsByRank r1 s' = Inr (q1, i1, o1, fw1)"
    and h2: "hitsByRank r2 s' = Inr (q2, i2, o2, fw2)"
    and tie: "qv_numElts q1 = qv_numElts q2"
    and first: "(fw2 \<and> \<not> fw1) \<or> (fw1 = fw2 \<and> i1 < i2)"
  shows "r1 < r2"
proof (rule ccontr)
  assume contra: "\<not> r1 < r2"
  note pre = sort_pre_after_calls(1) [OF calls n]
  note f = sort_result [OF pre run]
  have b: "bucket s' = bucket s" by (rule ext) (simp add: bucket_def f)
  note a1 = hitsByRank_Inr [OF h1] and a2 = hitsByRank_Inr [OF h2]
  have lr: "length (ranked s') = unat (nonzTot_m s)" using f(7,8) by (simp add: ranked_def)
  from first a1(4) a2(4) have before: "scanned_before (ranked s' ! r1) (ranked s' ! r2)"
    by (auto simp: scanned_before_def simp flip: a1(4) a2(4))
  show False
  proof (cases "r1 = r2")
    case True
    with before scanned_before_asym [of "ranked s' ! r2" "ranked s' ! r2"] show False by simp
  next
    case False
    with contra have "r2 < r1" by simp
    with f(11) a1(1) lr f(5) have "rank_less s (ranked s' ! r2) (ranked s' ! r1)"
      by (simp add: sorted_wrt_iff_nth_less)
    moreover have "qv_numElts (bucket s (ranked s' ! r2)) = qv_numElts (bucket s (ranked s' ! r1))"
      using tie a1(5) a2(5) by (simp add: b)
    ultimately have "scanned_before (ranked s' ! r2) (ranked s' ! r1)"
      by (simp add: rank_less_def)
    with before scanned_before_asym show False by blast
  qed
qed

theorem sort_ties_in_scan_order_witness:
  "run_calls (Reset 1 [0] 1 # map add_call [(qval 1 4, any_cache, 0, True, 20),
      (qval 1 4, any_cache, 0, False, 20)]) blank = Inr tied1 \<and>
   (1 :: nat) < 2 ^ 32 \<and>
   SeedResults_sort tied1 = Inr tied1_sorted \<and>
   hitsByRank 0 tied1_sorted = Inr (qval 1 4, 0, 0, False) \<and>
   hitsByRank 1 tied1_sorted = Inr (qval 1 4, 0, 0, True) \<and>
   run_calls (Reset 1 [0, 10] 2 # map add_call [(qval 1 5, any_cache, 0, True, 20),
      (qval 2 3, any_cache, 0, False, 20), (qval 0 0, any_cache, 1, True, 20),
      (qval 1 3, any_cache, 1, False, 20)]) blank = Inr filled2 \<and>
   (2 :: nat) < 2 ^ 32 \<and>
   SeedResults_sort filled2 = Inr sorted2 \<and>
   hitsByRank 0 sorted2 = Inr (qval 2 3, 0, 0, False) \<and>
   hitsByRank 1 sorted2 = Inr (qval 1 3, 1, 10, False) \<and>
   qv_numElts (qval 2 3) = qv_numElts (qval 1 3) \<and> (0 :: nat) < 1"
proof -
  have n1: "(1 :: nat) < 2 ^ 32" and n2: "(2 :: nat) < 2 ^ 32" by simp_all
  have t: "hitsByRank 0 tied1_sorted = Inr (qval 1 4, 0, 0, False)"
    "hitsByRank 1 tied1_sorted = Inr (qval 1 4, 0, 0, True)"
    by (simp_all add: hitsByRank_def tied1_sorted_def tied1_def concrete_defs)
  have t_first: "(True \<and> \<not> False) \<or> (False = True \<and> (0 :: nat) < 0)" by simp
  have h: "hitsByRank 0 sorted2 = Inr (qval 2 3, 0, 0, False)"
    "hitsByRank 1 sorted2 = Inr (qval 1 3, 1, 10, False)"
    by (simp_all add: hitsByRank_def sorted2_def concrete_defs)
  have tie: "qv_numElts (qval 2 3) = qv_numElts (qval 1 3)" by (simp add: qval_def)
  have h_first: "(False \<and> \<not> False) \<or> (False = False \<and> (0 :: nat) < 1)" by simp
  from sort_ties_in_scan_order [OF calls_tied1 n1 sort_tied1 t refl t_first]
    sort_ties_in_scan_order [OF calls_filled2 n2 sort_filled2 h tie h_first]
  have "(0 :: nat) < 1" by simp
  with calls_tied1 n1 sort_tied1 t calls_filled2 n2 sort_filled2 h tie show ?thesis
    by (intro conjI)
qed

end
